theory Spec2Isabelle
  imports Main "HOL-Library.Word"
begin

section \<open>Data model of main.go\<close>

text \<open>
  \<^verbatim>\<open>type Color bool\<close> with \<^verbatim>\<open>BLACK, RED = true, false\<close>; the zero value of a
  node's colour is Red. \<^verbatim>\<open>type Direction byte\<close> with the constants LEFT, RIGHT, NODIR.
\<close>

datatype Color = RED | BLACK

datatype Direction = LEFT | RIGHT | NODIR

text \<open>
  Keys are \<^verbatim>\<open>interface{}\<close> values. The code looks at a key in three ways only: it
  compares it with \<^verbatim>\<open>nil\<close>, it asks \<^verbatim>\<open>reflect.ValueOf(key).Kind()\<close>, and the
  comparators assert it to \<^verbatim>\<open>int\<close> (or \<^verbatim>\<open>string\<close>). A key is therefore the nil
  interface, an \<^verbatim>\<open>int\<close>, a \<^verbatim>\<open>string\<close>, or some other dynamic value of which only
  the reflect kind matters. The kinds are those of package reflect, prefixed with K.
\<close>

datatype Kind =
    KInvalid | KBool | KInt | KInt8 | KInt16 | KInt32 | KInt64
  | KUint | KUint8 | KUint16 | KUint32 | KUint64 | KUintptr
  | KFloat32 | KFloat64 | KComplex64 | KComplex128
  | KArray | KChan | KFunc | KInterface | KMap | KPtr | KSlice
  | KString | KStruct | KUnsafePointer

datatype key = NilKey | IntKey int | StringKey string | OtherKey Kind

fun Kind_of :: "key \<Rightarrow> Kind" where
  "Kind_of NilKey = KInvalid"
| "Kind_of (IntKey i) = KInt"
| "Kind_of (StringKey s) = KString"
| "Kind_of (OtherKey k) = k"

text \<open>The two error values of the package, and the two run-time panics the code can raise.\<close>

datatype error = ErrorKeyIsNil | ErrorKeyDisallowed

datatype panic = NilDereference | TypeAssertion

text \<open>A \<^verbatim>\<open>*Node\<close> is an address in the store of nodes, or nil.\<close>

type_synonym ref = "nat option"

record 'v Node =
  Key :: key
  payload :: "'v option"
  color :: Color
  Left :: ref
  Right :: ref
  Leaf :: bool
  parent :: ref

definition zeroNode :: "'v Node" where
  "zeroNode = \<lparr>Key = NilKey, payload = None, color = RED, Left = None, Right = None,
     Leaf = False, parent = None\<rparr>"

text \<open>
  The \<^verbatim>\<open>Tree\<close> struct (Root and cmp) together with the store its node pointers point
  into: \<open>store\<close> maps an address to the node object there, \<open>fresh\<close> is the next address
  that \<^verbatim>\<open>&Node{...}\<close> allocates.
\<close>

record 'v Tree =
  Root :: ref
  cmp :: "key \<Rightarrow> key \<Rightarrow> panic + int"
  store :: "nat \<Rightarrow> 'v Node"
  fresh :: nat

text \<open>Field assignments \<^verbatim>\<open>n.f = v\<close> through a non-nil pointer.\<close>

definition set_color :: "nat \<Rightarrow> Color \<Rightarrow> 'v Tree \<Rightarrow> 'v Tree" where
  "set_color a c t = t\<lparr>store := (store t)(a := (store t a)\<lparr>color := c\<rparr>)\<rparr>"

definition set_Left :: "nat \<Rightarrow> ref \<Rightarrow> 'v Tree \<Rightarrow> 'v Tree" where
  "set_Left a v t = t\<lparr>store := (store t)(a := (store t a)\<lparr>Left := v\<rparr>)\<rparr>"

definition set_Right :: "nat \<Rightarrow> ref \<Rightarrow> 'v Tree \<Rightarrow> 'v Tree" where
  "set_Right a v t = t\<lparr>store := (store t)(a := (store t a)\<lparr>Right := v\<rparr>)\<rparr>"

definition set_parent :: "nat \<Rightarrow> ref \<Rightarrow> 'v Tree \<Rightarrow> 'v Tree" where
  "set_parent a v t = t\<lparr>store := (store t)(a := (store t a)\<lparr>parent := v\<rparr>)\<rparr>"

definition set_payload :: "nat \<Rightarrow> 'v option \<Rightarrow> 'v Tree \<Rightarrow> 'v Tree" where
  "set_payload a v t = t\<lparr>store := (store t)(a := (store t a)\<lparr>payload := v\<rparr>)\<rparr>"

text \<open>\<^verbatim>\<open>&Node{...}\<close>: a new object at the next free address.\<close>

definition alloc :: "'v Node \<Rightarrow> 'v Tree \<Rightarrow> nat \<times> 'v Tree" where
  "alloc n t = (fresh t, t\<lparr>store := (store t)(fresh t := n), fresh := Suc (fresh t)\<rparr>)"

section \<open>Comparator, constructors, key validation\<close>

definition IntComparator :: "key \<Rightarrow> key \<Rightarrow> panic + int" where
  "IntComparator o1 o2 =
     (case o1 of
        IntKey i1 \<Rightarrow>
          (case o2 of
             IntKey i2 \<Rightarrow> Inr (if i1 > i2 then 1 else if i1 < i2 then - 1 else 0)
           | _ \<Rightarrow> Inl TypeAssertion)
      | _ \<Rightarrow> Inl TypeAssertion)"

definition NewTree :: "'v Tree" where
  "NewTree = \<lparr>Root = None, cmp = IntComparator, store = (\<lambda>a. zeroNode), fresh = 0\<rparr>"

definition NewTreeWith :: "(key \<Rightarrow> key \<Rightarrow> panic + int) \<Rightarrow> 'v Tree" where
  "NewTreeWith c = \<lparr>Root = None, cmp = c, store = (\<lambda>a. zeroNode), fresh = 0\<rparr>"

definition mustBeValidKey :: "key \<Rightarrow> error option" where
  "mustBeValidKey k =
     (if k = NilKey then Some ErrorKeyIsNil
      else (case Kind_of k of
              KChan \<Rightarrow> Some ErrorKeyDisallowed
            | KFunc \<Rightarrow> Some ErrorKeyDisallowed
            | KInterface \<Rightarrow> Some ErrorKeyDisallowed
            | KMap \<Rightarrow> Some ErrorKeyDisallowed
            | KPtr \<Rightarrow> Some ErrorKeyDisallowed
            | KSlice \<Rightarrow> Some ErrorKeyDisallowed
            | _ \<Rightarrow> None))"

section \<open>Lookup\<close>

text \<open>
  Functions that recurse or loop over the store are partial: on a cyclic store they need
  not return, which is the value \<open>None\<close>. A returned value is \<open>Some (Inr v)\<close>, a panic is
  \<open>Some (Inl p)\<close>.
\<close>

partial_function (option) internalLookup ::
  "ref \<Rightarrow> ref \<Rightarrow> key \<Rightarrow> Direction \<Rightarrow> 'v Tree \<Rightarrow> (panic + bool \<times> ref \<times> Direction) option"
where
  "internalLookup par this k dir t =
     (case this of
        None \<Rightarrow> Some (Inr (False, par, dir))
      | Some a \<Rightarrow>
          (case cmp t k (Key (store t a)) of
             Inl e \<Rightarrow> Some (Inl e)
           | Inr c \<Rightarrow>
               if c = 0 then Some (Inr (True, par, dir))
               else if c < 0 then internalLookup this (Left (store t a)) k LEFT t
               else if c > 0 then internalLookup this (Right (store t a)) k RIGHT t
               else Some (Inr (False, par, NODIR))))"

definition GetParent :: "key \<Rightarrow> 'v Tree \<Rightarrow> (panic + bool \<times> ref \<times> Direction) option" where
  "GetParent k t =
     (case mustBeValidKey k of
        Some err \<Rightarrow> Some (Inr (False, None, NODIR))
      | None \<Rightarrow>
          if Root t = None then Some (Inr (False, None, NODIR))
          else internalLookup None (Root t) k NODIR t)"

definition getNode :: "key \<Rightarrow> 'v Tree \<Rightarrow> (panic + bool \<times> ref) option" where
  "getNode k t =
     (case GetParent k t of
        None \<Rightarrow> None
      | Some (Inl e) \<Rightarrow> Some (Inl e)
      | Some (Inr (found, par, dir)) \<Rightarrow>
          if found then
            (case par of
               None \<Rightarrow> Some (Inr (True, Root t))
             | Some p \<Rightarrow>
                 (let node = (case dir of LEFT \<Rightarrow> Left (store t p)
                                | RIGHT \<Rightarrow> Right (store t p)
                                | NODIR \<Rightarrow> None)
                  in if node \<noteq> None then Some (Inr (True, node)) else Some (Inr (False, None))))
          else Some (Inr (False, None)))"

definition Get :: "key \<Rightarrow> 'v Tree \<Rightarrow> (panic + bool \<times> 'v option) option" where
  "Get k t =
     (case mustBeValidKey k of
        Some err \<Rightarrow> Some (Inr (False, None))
      | None \<Rightarrow>
          (case getNode k t of
             None \<Rightarrow> None
           | Some (Inl e) \<Rightarrow> Some (Inl e)
           | Some (Inr (ok, node)) \<Rightarrow>
               if ok then
                 (case node of
                    None \<Rightarrow> Some (Inl NilDereference)
                  | Some a \<Rightarrow> Some (Inr (True, payload (store t a))))
               else Some (Inr (False, None))))"

definition Has :: "key \<Rightarrow> 'v Tree \<Rightarrow> (panic + bool) option" where
  "Has k t =
     (case mustBeValidKey k of
        Some err \<Rightarrow> Some (Inr False)
      | None \<Rightarrow>
          (case internalLookup None (Root t) k NODIR t of
             None \<Rightarrow> None
           | Some (Inl e) \<Rightarrow> Some (Inl e)
           | Some (Inr (found, par, dir)) \<Rightarrow> Some (Inr found)))"

partial_function (option) getMinimum :: "nat \<Rightarrow> 'v Tree \<Rightarrow> nat option" where
  "getMinimum x t =
     (case Left (store t x) of
        Some l \<Rightarrow> getMinimum l t
      | None \<Rightarrow> Some x)"

section \<open>Rotations\<close>

definition RotateRight :: "ref \<Rightarrow> 'v Tree \<Rightarrow> 'v Tree" where
  "RotateRight y t =
     (case y of
        None \<Rightarrow> t
      | Some ya \<Rightarrow>
          (case Left (store t ya) of
             None \<Rightarrow> t
           | Some xa \<Rightarrow>
               (let t1 = set_Left ya (Right (store t xa)) t;
                    t2 = (case Right (store t1 xa) of
                            None \<Rightarrow> t1
                          | Some b \<Rightarrow> set_parent b (Some ya) t1);
                    t3 = set_parent xa (parent (store t2 ya)) t2;
                    t4 = (case parent (store t3 ya) of
                            None \<Rightarrow> t3\<lparr>Root := Some xa\<rparr>
                          | Some p \<Rightarrow>
                              if Some ya = Left (store t3 p) then set_Left p (Some xa) t3
                              else set_Right p (Some xa) t3);
                    t5 = set_Right xa (Some ya) t4
                in set_parent ya (Some xa) t5)))"

definition RotateLeft :: "ref \<Rightarrow> 'v Tree \<Rightarrow> 'v Tree" where
  "RotateLeft x t =
     (case x of
        None \<Rightarrow> t
      | Some xa \<Rightarrow>
          (case Right (store t xa) of
             None \<Rightarrow> t
           | Some ya \<Rightarrow>
               (let t1 = set_Right xa (Left (store t ya)) t;
                    t2 = (case Left (store t1 ya) of
                            None \<Rightarrow> t1
                          | Some b \<Rightarrow> set_parent b (Some xa) t1);
                    t3 = set_parent ya (parent (store t2 xa)) t2;
                    t4 = (case parent (store t3 xa) of
                            None \<Rightarrow> t3\<lparr>Root := Some ya\<rparr>
                          | Some p \<Rightarrow>
                              if Some xa = Left (store t3 p) then set_Left p (Some ya) t3
                              else set_Right p (Some ya) t3);
                    t5 = set_Left ya (Some xa) t4
                in set_parent xa (Some ya) t5)))"

section \<open>Put and its fix-up\<close>

definition isRed :: "'v Tree \<Rightarrow> ref \<Rightarrow> bool" where
  "isRed t n = (case n of None \<Rightarrow> False | Some a \<Rightarrow> color (store t a) = RED)"

text \<open>
  Cases 2 and 3 of \<^verbatim>\<open>fixupPut\<close> when the parent \<open>p\<close> of \<open>z\<close> is the left child of the
  grandparent \<open>g\<close>, and their mirror image. The result is the new \<open>z\<close> and the new tree.
\<close>

definition fixupPut_left23 :: "nat \<Rightarrow> nat \<Rightarrow> nat \<Rightarrow> 'v Tree \<Rightarrow> panic + nat \<times> 'v Tree" where
  "fixupPut_left23 z p g t =
     (let (z1, t1) = (if Some z = Right (store t p) then (p, RotateLeft (Some p) t) else (z, t))
      in case parent (store t1 z1) of
           None \<Rightarrow> Inl NilDereference
         | Some p1 \<Rightarrow> Inr (z1, RotateRight (Some g) (set_color g RED (set_color p1 BLACK t1))))"

definition fixupPut_right23 :: "nat \<Rightarrow> nat \<Rightarrow> nat \<Rightarrow> 'v Tree \<Rightarrow> panic + nat \<times> 'v Tree" where
  "fixupPut_right23 z p g t =
     (let (z1, t1) = (if Some z = Left (store t p) then (p, RotateRight (Some p) t) else (z, t))
      in case parent (store t1 z1) of
           None \<Rightarrow> Inl NilDereference
         | Some p1 \<Rightarrow> Inr (z1, RotateLeft (Some g) (set_color g RED (set_color p1 BLACK t1))))"

partial_function (option) fixupPut_loop :: "nat \<Rightarrow> 'v Tree \<Rightarrow> (panic + 'v Tree) option" where
  "fixupPut_loop z t =
     (case parent (store t z) of
        None \<Rightarrow> Some (Inr t)
      | Some p \<Rightarrow>
          if color (store t p) = BLACK then Some (Inr t)
          else
            (case parent (store t p) of
               None \<Rightarrow> Some (Inl NilDereference)
             | Some g \<Rightarrow>
                 if Some p = Left (store t g) then
                   (case (if isRed t (Right (store t g)) then Right (store t g) else None) of
                      Some y \<Rightarrow>
                        fixupPut_loop g (set_color g RED (set_color y BLACK (set_color p BLACK t)))
                    | None \<Rightarrow>
                        (case fixupPut_left23 z p g t of
                           Inl e \<Rightarrow> Some (Inl e)
                         | Inr (z1, t1) \<Rightarrow> fixupPut_loop z1 t1))
                 else
                   (case (if isRed t (Left (store t g)) then Left (store t g) else None) of
                      Some y \<Rightarrow>
                        fixupPut_loop g (set_color g RED (set_color y BLACK (set_color p BLACK t)))
                    | None \<Rightarrow>
                        (case fixupPut_right23 z p g t of
                           Inl e \<Rightarrow> Some (Inl e)
                         | Inr (z1, t1) \<Rightarrow> fixupPut_loop z1 t1))))"

definition fixupPut :: "ref \<Rightarrow> 'v Tree \<Rightarrow> (panic + 'v Tree) option" where
  "fixupPut z t =
     (case z of
        None \<Rightarrow> Some (Inl NilDereference)
      | Some za \<Rightarrow>
          (case fixupPut_loop za t of
             None \<Rightarrow> None
           | Some (Inl e) \<Rightarrow> Some (Inl e)
           | Some (Inr t1) \<Rightarrow>
               (case Root t1 of
                  None \<Rightarrow> Some (Inl NilDereference)
                | Some r \<Rightarrow> Some (Inr (set_color r BLACK t1)))))"

definition Put :: "key \<Rightarrow> 'v option \<Rightarrow> 'v Tree \<Rightarrow> (panic + error option \<times> 'v Tree) option" where
  "Put k data t =
     (case mustBeValidKey k of
        Some err \<Rightarrow> Some (Inr (Some err, t))
      | None \<Rightarrow>
          if Root t = None then
            (let (a, t1) = alloc (zeroNode\<lparr>Key := k, color := BLACK, payload := data\<rparr>) t
             in Some (Inr (None, t1\<lparr>Root := Some a\<rparr>)))
          else
            (case internalLookup None (Root t) k NODIR t of
               None \<Rightarrow> None
             | Some (Inl e) \<Rightarrow> Some (Inl e)
             | Some (Inr (found, par, dir)) \<Rightarrow>
                 if found then
                   (case par of
                      None \<Rightarrow>
                        (case Root t of
                           None \<Rightarrow> Some (Inl NilDereference)
                         | Some r \<Rightarrow> Some (Inr (None, set_payload r data t)))
                    | Some p \<Rightarrow>
                        (case dir of
                           LEFT \<Rightarrow>
                             (case Left (store t p) of
                                None \<Rightarrow> Some (Inl NilDereference)
                              | Some c \<Rightarrow> Some (Inr (None, set_payload c data t)))
                         | RIGHT \<Rightarrow>
                             (case Right (store t p) of
                                None \<Rightarrow> Some (Inl NilDereference)
                              | Some c \<Rightarrow> Some (Inr (None, set_payload c data t)))
                         | NODIR \<Rightarrow> Some (Inr (None, t))))
                 else
                   (case par of
                      None \<Rightarrow> Some (Inr (None, t))
                    | Some p \<Rightarrow>
                        (let (a, t1) = alloc (zeroNode\<lparr>Key := k, parent := par, payload := data\<rparr>) t;
                             t2 = (case dir of
                                     LEFT \<Rightarrow> set_Left p (Some a) t1
                                   | RIGHT \<Rightarrow> set_Right p (Some a) t1
                                   | NODIR \<Rightarrow> t1)
                         in case fixupPut (Some a) t2 of
                              None \<Rightarrow> None
                            | Some (Inl e) \<Rightarrow> Some (Inl e)
                            | Some (Inr t3) \<Rightarrow> Some (Inr (None, t3))))))"

section \<open>Size\<close>

text \<open>The counting visitor; \<^verbatim>\<open>Count\<close> is a \<^verbatim>\<open>uint64\<close>.\<close>

partial_function (option) Visit :: "ref \<Rightarrow> 'v Tree \<Rightarrow> 64 word \<Rightarrow> 64 word option" where
  "Visit node t count =
     (case node of
        None \<Rightarrow> Some count
      | Some a \<Rightarrow>
          Option.bind (Visit (Left (store t a)) t count)
            (\<lambda>c1. Visit (Right (store t a)) t (c1 + 1)))"

definition Size :: "'v Tree \<Rightarrow> 64 word option" where
  "Size t = Visit (Root t) t 0"

section \<open>Delete and its fix-up\<close>

definition transplant :: "ref \<Rightarrow> ref \<Rightarrow> 'v Tree \<Rightarrow> panic + 'v Tree" where
  "transplant u v t =
     (case u of
        None \<Rightarrow> Inl NilDereference
      | Some ua \<Rightarrow>
          (let t1 = (case parent (store t ua) of
                       None \<Rightarrow> t\<lparr>Root := v\<rparr>
                     | Some p \<Rightarrow>
                         if u = Left (store t p) then set_Left p v t else set_Right p v t)
           in case v of
                None \<Rightarrow> Inr t1
              | Some va \<Rightarrow> Inr (set_parent va (parent (store t1 ua)) t1)))"

text \<open>
  One iteration of the loop of \<^verbatim>\<open>fixupDelete\<close> in the branch
  \<^verbatim>\<open>x == x.parent.Right\<close>: first case 1, which yields the sibling \<open>w\<close>, then the inner
  switch (cases 2 and 3) and case 4. The result is the new \<open>x\<close> and the new tree.
\<close>

definition fixupDelete_right1 :: "nat \<Rightarrow> 'v Tree \<Rightarrow> panic + ref \<times> 'v Tree" where
  "fixupDelete_right1 xa t =
     (case parent (store t xa) of
        None \<Rightarrow> Inl NilDereference
      | Some p \<Rightarrow>
          (case Left (store t p) of
             None \<Rightarrow> Inr (None, t)
           | Some wa \<Rightarrow>
               if color (store t wa) = RED then
                 (let t1 = set_color wa BLACK t
                  in case parent (store t1 xa) of
                       None \<Rightarrow> Inl NilDereference
                     | Some p1 \<Rightarrow>
                         (let t2 = set_color p1 RED t1;
                              t3 = RotateRight (parent (store t2 xa)) t2
                          in case parent (store t3 xa) of
                               None \<Rightarrow> Inl NilDereference
                             | Some p3 \<Rightarrow> Inr (Left (store t3 p3), t3)))
               else Inr (Some wa, t)))"

definition fixupDelete_right23 :: "nat \<Rightarrow> nat \<Rightarrow> 'v Tree \<Rightarrow> panic + ref \<times> ref \<times> 'v Tree" where
  "fixupDelete_right23 xa wa t =
     (if \<not> isRed t (Left (store t wa)) \<and> \<not> isRed t (Right (store t wa)) then
        (let t1 = set_color wa RED t in Inr (parent (store t1 xa), Some wa, t1))
      else if isRed t (Right (store t wa)) \<and> \<not> isRed t (Left (store t wa)) then
        (case Right (store t wa) of
           None \<Rightarrow> Inl NilDereference
         | Some wr \<Rightarrow>
             (let t1 = set_color wr BLACK t;
                  t2 = set_color wa RED t1;
                  t3 = RotateLeft (Some wa) t2
              in case parent (store t3 xa) of
                   None \<Rightarrow> Inl NilDereference
                 | Some p \<Rightarrow> Inr (Some xa, Left (store t3 p), t3)))
      else Inr (Some xa, Some wa, t))"

definition fixupDelete_right4 :: "ref \<Rightarrow> ref \<Rightarrow> 'v Tree \<Rightarrow> panic + ref \<times> 'v Tree" where
  "fixupDelete_right4 x w t =
     (case w of
        None \<Rightarrow> Inl NilDereference
      | Some wa \<Rightarrow>
          if isRed t (Left (store t wa)) then
            (case x of
               None \<Rightarrow> Inl NilDereference
             | Some xa \<Rightarrow>
                 (case parent (store t xa) of
                    None \<Rightarrow> Inl NilDereference
                  | Some p \<Rightarrow>
                      (let t1 = set_color wa (color (store t p)) t
                       in case parent (store t1 xa) of
                            None \<Rightarrow> Inl NilDereference
                          | Some p1 \<Rightarrow>
                              (let t2 = set_color p1 BLACK t1
                               in case Left (store t2 wa) of
                                    None \<Rightarrow> Inl NilDereference
                                  | Some wl \<Rightarrow>
                                      (let t3 = set_color wl BLACK t2;
                                           t4 = RotateRight (parent (store t3 xa)) t3
                                       in Inr (Root t4, t4))))))
          else Inr (x, t))"

definition fixupDelete_right :: "nat \<Rightarrow> 'v Tree \<Rightarrow> panic + ref \<times> 'v Tree" where
  "fixupDelete_right xa t =
     (case fixupDelete_right1 xa t of
        Inl e \<Rightarrow> Inl e
      | Inr (w, t1) \<Rightarrow>
          (case w of
             None \<Rightarrow> Inr (Some xa, t1)
           | Some wa \<Rightarrow>
               (case fixupDelete_right23 xa wa t1 of
                  Inl e \<Rightarrow> Inl e
                | Inr (x2, w2, t2) \<Rightarrow> fixupDelete_right4 x2 w2 t2)))"

text \<open>The mirror image: the branch \<^verbatim>\<open>x == x.parent.Left\<close>.\<close>

definition fixupDelete_left1 :: "nat \<Rightarrow> 'v Tree \<Rightarrow> panic + ref \<times> 'v Tree" where
  "fixupDelete_left1 xa t =
     (case parent (store t xa) of
        None \<Rightarrow> Inl NilDereference
      | Some p \<Rightarrow>
          (case Right (store t p) of
             None \<Rightarrow> Inr (None, t)
           | Some wa \<Rightarrow>
               if color (store t wa) = RED then
                 (let t1 = set_color wa BLACK t
                  in case parent (store t1 xa) of
                       None \<Rightarrow> Inl NilDereference
                     | Some p1 \<Rightarrow>
                         (let t2 = set_color p1 RED t1;
                              t3 = RotateLeft (parent (store t2 xa)) t2
                          in case parent (store t3 xa) of
                               None \<Rightarrow> Inl NilDereference
                             | Some p3 \<Rightarrow> Inr (Right (store t3 p3), t3)))
               else Inr (Some wa, t)))"

definition fixupDelete_left23 :: "nat \<Rightarrow> nat \<Rightarrow> 'v Tree \<Rightarrow> panic + ref \<times> ref \<times> 'v Tree" where
  "fixupDelete_left23 xa wa t =
     (if \<not> isRed t (Left (store t wa)) \<and> \<not> isRed t (Right (store t wa)) then
        (let t1 = set_color wa RED t in Inr (parent (store t1 xa), Some wa, t1))
      else if isRed t (Left (store t wa)) \<and> \<not> isRed t (Right (store t wa)) then
        (case Left (store t wa) of
           None \<Rightarrow> Inl NilDereference
         | Some wl \<Rightarrow>
             (let t1 = set_color wl BLACK t;
                  t2 = set_color wa RED t1;
                  t3 = RotateRight (Some wa) t2
              in case parent (store t3 xa) of
                   None \<Rightarrow> Inl NilDereference
                 | Some p \<Rightarrow> Inr (Some xa, Right (store t3 p), t3)))
      else Inr (Some xa, Some wa, t))"

definition fixupDelete_left4 :: "ref \<Rightarrow> ref \<Rightarrow> 'v Tree \<Rightarrow> panic + ref \<times> 'v Tree" where
  "fixupDelete_left4 x w t =
     (case w of
        None \<Rightarrow> Inl NilDereference
      | Some wa \<Rightarrow>
          if isRed t (Right (store t wa)) then
            (case x of
               None \<Rightarrow> Inl NilDereference
             | Some xa \<Rightarrow>
                 (case parent (store t xa) of
                    None \<Rightarrow> Inl NilDereference
                  | Some p \<Rightarrow>
                      (let t1 = set_color wa (color (store t p)) t
                       in case parent (store t1 xa) of
                            None \<Rightarrow> Inl NilDereference
                          | Some p1 \<Rightarrow>
                              (let t2 = set_color p1 BLACK t1
                               in case Right (store t2 wa) of
                                    None \<Rightarrow> Inl NilDereference
                                  | Some wr \<Rightarrow>
                                      (let t3 = set_color wr BLACK t2;
                                           t4 = RotateLeft (parent (store t3 xa)) t3
                                       in Inr (Root t4, t4))))))
          else Inr (x, t))"

definition fixupDelete_left :: "nat \<Rightarrow> 'v Tree \<Rightarrow> panic + ref \<times> 'v Tree" where
  "fixupDelete_left xa t =
     (case fixupDelete_left1 xa t of
        Inl e \<Rightarrow> Inl e
      | Inr (w, t1) \<Rightarrow>
          (case w of
             None \<Rightarrow> Inr (Some xa, t1)
           | Some wa \<Rightarrow>
               (case fixupDelete_left23 xa wa t1 of
                  Inl e \<Rightarrow> Inl e
                | Inr (x2, w2, t2) \<Rightarrow> fixupDelete_left4 x2 w2 t2)))"

text \<open>
  The loop of \<^verbatim>\<open>fixupDelete\<close>. When \<open>x\<close> is neither child of its parent no case of the
  switch applies and the loop goes round with nothing changed.
\<close>

partial_function (option) fixupDelete_loop ::
  "ref \<Rightarrow> 'v Tree \<Rightarrow> (panic + ref \<times> 'v Tree) option"
where
  "fixupDelete_loop x t =
     (if x = Root t then Some (Inr (x, t))
      else
        (case x of
           None \<Rightarrow> Some (Inl NilDereference)
         | Some xa \<Rightarrow>
             if color (store t xa) = RED then Some (Inr (x, t))
             else
               (case parent (store t xa) of
                  None \<Rightarrow> Some (Inl NilDereference)
                | Some p \<Rightarrow>
                    if x = Right (store t p) then
                      (case fixupDelete_right xa t of
                         Inl e \<Rightarrow> Some (Inl e)
                       | Inr (x1, t1) \<Rightarrow> fixupDelete_loop x1 t1)
                    else if x = Left (store t p) then
                      (case fixupDelete_left xa t of
                         Inl e \<Rightarrow> Some (Inl e)
                       | Inr (x1, t1) \<Rightarrow> fixupDelete_loop x1 t1)
                    else fixupDelete_loop x t)))"

definition fixupDelete :: "ref \<Rightarrow> 'v Tree \<Rightarrow> (panic + 'v Tree) option" where
  "fixupDelete x t =
     (case x of
        None \<Rightarrow> Some (Inr t)
      | Some xa \<Rightarrow>
          (case fixupDelete_loop x t of
             None \<Rightarrow> None
           | Some (Inl e) \<Rightarrow> Some (Inl e)
           | Some (Inr (x1, t1)) \<Rightarrow>
               (case x1 of
                  None \<Rightarrow> Some (Inl NilDereference)
                | Some x1a \<Rightarrow> Some (Inr (set_color x1a BLACK t1)))))"

text \<open>
  The three structural cases of \<^verbatim>\<open>Delete\<close> for the node \<open>z\<close>; the result is
  \<^verbatim>\<open>yOriginalColor\<close>, \<open>x\<close> and the tree after the splice.
\<close>

definition Delete_splice :: "nat \<Rightarrow> 'v Tree \<Rightarrow> (panic + Color \<times> ref \<times> 'v Tree) option" where
  "Delete_splice za t =
     (if Left (store t za) = None then
        (case transplant (Some za) (Right (store t za)) t of
           Inl e \<Rightarrow> Some (Inl e)
         | Inr t1 \<Rightarrow> Some (Inr (color (store t za), Right (store t za), t1)))
      else if Right (store t za) = None then
        (case transplant (Some za) (Left (store t za)) t of
           Inl e \<Rightarrow> Some (Inl e)
         | Inr t1 \<Rightarrow> Some (Inr (color (store t za), Left (store t za), t1)))
      else
        (case Right (store t za) of
           None \<Rightarrow> Some (Inl NilDereference)
         | Some zr \<Rightarrow>
             (case getMinimum zr t of
                None \<Rightarrow> None
              | Some ya \<Rightarrow>
                  (let yOriginalColor = color (store t ya);
                       x = Right (store t ya)
                   in case (if parent (store t ya) = Some za then
                              (case x of
                                 None \<Rightarrow> Inr t
                               | Some xa \<Rightarrow> Inr (set_parent xa (Some ya) t))
                            else
                              (case transplant (Some ya) (Right (store t ya)) t of
                                 Inl e \<Rightarrow> Inl e
                               | Inr t1 \<Rightarrow>
                                   (let t2 = set_Right ya (Right (store t1 za)) t1
                                    in case Right (store t2 ya) of
                                         None \<Rightarrow> Inl NilDereference
                                       | Some yr \<Rightarrow> Inr (set_parent yr (Some ya) t2)))) of
                        Inl e \<Rightarrow> Some (Inl e)
                      | Inr t3 \<Rightarrow>
                          (case transplant (Some za) (Some ya) t3 of
                             Inl e \<Rightarrow> Some (Inl e)
                           | Inr t4 \<Rightarrow>
                               (let t5 = set_Left ya (Left (store t4 za)) t4
                                in case Left (store t5 ya) of
                                     None \<Rightarrow> Some (Inl NilDereference)
                                   | Some yl \<Rightarrow>
                                       (let t6 = set_parent yl (Some ya) t5;
                                            t7 = set_color ya (color (store t6 za)) t6
                                        in Some (Inr (yOriginalColor, x, t7)))))))))"

definition Delete :: "key \<Rightarrow> 'v Tree \<Rightarrow> (panic + 'v Tree) option" where
  "Delete k t =
     (case Has k t of
        None \<Rightarrow> None
      | Some (Inl e) \<Rightarrow> Some (Inl e)
      | Some (Inr False) \<Rightarrow> Some (Inr t)
      | Some (Inr True) \<Rightarrow>
          (case getNode k t of
             None \<Rightarrow> None
           | Some (Inl e) \<Rightarrow> Some (Inl e)
           | Some (Inr (ok, z)) \<Rightarrow>
               (case z of
                  None \<Rightarrow> Some (Inl NilDereference)
                | Some za \<Rightarrow>
                    (case Delete_splice za t of
                       None \<Rightarrow> None
                     | Some (Inl e) \<Rightarrow> Some (Inl e)
                     | Some (Inr (yOriginalColor, x, t1)) \<Rightarrow>
                         if yOriginalColor = BLACK then fixupDelete x t1 else Some (Inr t1)))))"

section \<open>Range query\<close>

definition intKey :: "key \<Rightarrow> panic + int" where
  "intKey k = (case k of IntKey i \<Rightarrow> Inr i | _ \<Rightarrow> Inl TypeAssertion)"

partial_function (option) getSplitNode ::
  "ref \<Rightarrow> int \<Rightarrow> int \<Rightarrow> 'v Tree \<Rightarrow> (panic + ref) option"
where
  "getSplitNode n x1 x2 t =
     (case n of
        None \<Rightarrow> Some (Inl NilDereference)
      | Some a \<Rightarrow>
          (case intKey (Key (store t a)) of
             Inl e \<Rightarrow> Some (Inl e)
           | Inr i \<Rightarrow>
               if i \<ge> x1 \<and> i \<le> x2 then Some (Inr n)
               else if Left (store t a) \<noteq> None then getSplitNode (Left (store t a)) x1 x2 t
               else if Right (store t a) \<noteq> None then getSplitNode (Right (store t a)) x1 x2 t
               else Some (Inr None)))"

definition isLeaf :: "ref \<Rightarrow> 'v Tree \<Rightarrow> panic + bool" where
  "isLeaf n t =
     (case n of
        None \<Rightarrow> Inl NilDereference
      | Some a \<Rightarrow> Inr (Right (store t a) = None \<and> Left (store t a) = None))"

text \<open>
  The two loops of \<^verbatim>\<open>getValuesInRange\<close>. \<^verbatim>\<open>rangeNodes\<close> is a slice of node values:
  \<^verbatim>\<open>append(rangeNodes, *curNode.Right)\<close> stores a copy of the child node.
\<close>

partial_function (option) goingLeft ::
  "ref \<Rightarrow> int \<Rightarrow> 'v Node list \<Rightarrow> 'v Tree \<Rightarrow> (panic + ref \<times> 'v Node list) option"
where
  "goingLeft cur x1 rangeNodes t =
     (case isLeaf cur t of
        Inl e \<Rightarrow> Some (Inl e)
      | Inr leaf \<Rightarrow>
          if leaf then Some (Inr (cur, rangeNodes))
          else
          (case cur of
             None \<Rightarrow> Some (Inl NilDereference)
           | Some a \<Rightarrow>
               (case intKey (Key (store t a)) of
                  Inl e \<Rightarrow> Some (Inl e)
                | Inr i \<Rightarrow>
                    if x1 \<le> i then
                      (case Right (store t a) of
                         None \<Rightarrow> Some (Inl NilDereference)
                       | Some r \<Rightarrow>
                           goingLeft (Left (store t a)) x1 (rangeNodes @ [store t r]) t)
                    else goingLeft (Right (store t a)) x1 rangeNodes t)))"

partial_function (option) goingRight ::
  "ref \<Rightarrow> int \<Rightarrow> 'v Node list \<Rightarrow> 'v Tree \<Rightarrow> (panic + ref \<times> 'v Node list) option"
where
  "goingRight cur x2 rangeNodes t =
     (case isLeaf cur t of
        Inl e \<Rightarrow> Some (Inl e)
      | Inr leaf \<Rightarrow>
          if leaf then Some (Inr (cur, rangeNodes))
          else
          (case cur of
             None \<Rightarrow> Some (Inl NilDereference)
           | Some a \<Rightarrow>
               (case intKey (Key (store t a)) of
                  Inl e \<Rightarrow> Some (Inl e)
                | Inr i \<Rightarrow>
                    if i \<le> x2 then
                      (case Left (store t a) of
                         None \<Rightarrow> Some (Inl NilDereference)
                       | Some l \<Rightarrow>
                           goingRight (Right (store t a)) x2 (rangeNodes @ [store t l]) t)
                    else goingRight (Left (store t a)) x2 rangeNodes t)))"

text \<open>
  \<^verbatim>\<open>if curNode.Key.(int) >= x1 && curNode.Key.(int) <= x2 { append(rangeNodes, *curNode) }\<close>
\<close>

definition appendIfInRange ::
  "ref \<Rightarrow> int \<Rightarrow> int \<Rightarrow> 'v Node list \<Rightarrow> 'v Tree \<Rightarrow> panic + 'v Node list"
where
  "appendIfInRange cur x1 x2 rangeNodes t =
     (case cur of
        None \<Rightarrow> Inl NilDereference
      | Some a \<Rightarrow>
          (case intKey (Key (store t a)) of
             Inl e \<Rightarrow> Inl e
           | Inr i \<Rightarrow>
               if i \<ge> x1 \<and> i \<le> x2 then Inr (rangeNodes @ [store t a]) else Inr rangeNodes))"

fun keysOf :: "'v Node list \<Rightarrow> int list \<Rightarrow> panic + int list" where
  "keysOf [] keys = Inr keys"
| "keysOf (node # rest) keys =
     (case intKey (Key node) of
        Inl e \<Rightarrow> Inl e
      | Inr i \<Rightarrow> keysOf rest (keys @ [i]))"

definition getValuesInRange :: "int \<Rightarrow> int \<Rightarrow> 'v Tree \<Rightarrow> (panic + int list) option" where
  "getValuesInRange x1 x2 t =
     (case getSplitNode (Root t) x1 x2 t of
        None \<Rightarrow> None
      | Some (Inl e) \<Rightarrow> Some (Inl e)
      | Some (Inr None) \<Rightarrow> Some (Inr [])
      | Some (Inr (Some vs)) \<Rightarrow>
          (case (case isLeaf (Some vs) t of
                   Inl e \<Rightarrow> Inl e
                 | Inr leaf \<Rightarrow>
                     if leaf then
                       (case appendIfInRange (Some vs) x1 x2 [] t of
                          Inl e \<Rightarrow> Inl e
                        | Inr ns \<Rightarrow> Inr (Some vs, ns))
                     else Inr (Left (store t vs), [])) of
             Inl e \<Rightarrow> Some (Inl e)
           | Inr (cur0, ns0) \<Rightarrow>
               (case goingLeft cur0 x1 ns0 t of
                  None \<Rightarrow> None
                | Some (Inl e) \<Rightarrow> Some (Inl e)
                | Some (Inr (cur1, ns1)) \<Rightarrow>
                    (case appendIfInRange cur1 x1 x2 ns1 t of
                       Inl e \<Rightarrow> Some (Inl e)
                     | Inr ns2 \<Rightarrow>
                         (case goingRight (Right (store t vs)) x2 ns2 t of
                            None \<Rightarrow> None
                          | Some (Inl e) \<Rightarrow> Some (Inl e)
                          | Some (Inr (cur3, ns3)) \<Rightarrow>
                              (case appendIfInRange cur3 x1 x2 ns3 t of
                                 Inl e \<Rightarrow> Some (Inl e)
                               | Inr ns4 \<Rightarrow> Some (keysOf ns4 [])))))))"

section \<open>Sequences of calls\<close>

datatype 'v call = PutCall key "'v option" | DeleteCall key

fun run :: "'v call list \<Rightarrow> 'v Tree \<Rightarrow> (panic + 'v Tree) option" where
  "run [] t = Some (Inr t)"
| "run (PutCall k data # calls) t =
     (case Put k data t of
        None \<Rightarrow> None
      | Some (Inl e) \<Rightarrow> Some (Inl e)
      | Some (Inr (err, t1)) \<Rightarrow> run calls t1)"
| "run (DeleteCall k # calls) t =
     (case Delete k t of
        None \<Rightarrow> None
      | Some (Inl e) \<Rightarrow> Some (Inl e)
      | Some (Inr t1) \<Rightarrow> run calls t1)"

section \<open>The tree a store holds\<close>

text \<open>
  The shape of a tree in the store, as a value: every node with its address. \<open>shape h p t\<close>
  says that following the \<open>Left\<close> and \<open>Right\<close> pointers of the store \<open>h\<close> from the pointer
  \<open>p\<close> gives exactly \<open>t\<close>; \<open>parents_ok h par t\<close> says that the \<open>parent\<close> pointers in \<open>t\<close>
  point back, the root's to \<open>par\<close>.
\<close>

datatype atree = Lf | Nd atree nat atree

fun addrs :: "atree \<Rightarrow> nat list" where
  "addrs Lf = []"
| "addrs (Nd l a r) = addrs l @ a # addrs r"

fun shape :: "(nat \<Rightarrow> 'v Node) \<Rightarrow> ref \<Rightarrow> atree \<Rightarrow> bool" where
  "shape h p Lf = (p = None)"
| "shape h p (Nd l a r) = (p = Some a \<and> shape h (Left (h a)) l \<and> shape h (Right (h a)) r)"

fun parents_ok :: "(nat \<Rightarrow> 'v Node) \<Rightarrow> ref \<Rightarrow> atree \<Rightarrow> bool" where
  "parents_ok h par Lf = True"
| "parents_ok h par (Nd l a r) =
     (parent (h a) = par \<and> parents_ok h (Some a) l \<and> parents_ok h (Some a) r)"

text \<open>The keys of the tree in inorder.\<close>

definition keys_of :: "(nat \<Rightarrow> 'v Node) \<Rightarrow> atree \<Rightarrow> key list" where
  "keys_of h t = map (\<lambda>a. Key (h a)) (addrs t)"

subsection \<open>The four red-black invariants\<close>

fun root_color :: "(nat \<Rightarrow> 'v Node) \<Rightarrow> atree \<Rightarrow> Color" where
  "root_color h Lf = BLACK"
| "root_color h (Nd l a r) = color (h a)"

fun no_red_red :: "(nat \<Rightarrow> 'v Node) \<Rightarrow> atree \<Rightarrow> bool" where
  "no_red_red h Lf = True"
| "no_red_red h (Nd l a r) =
     ((color (h a) = BLACK \<or> (root_color h l = BLACK \<and> root_color h r = BLACK))
      \<and> no_red_red h l \<and> no_red_red h r)"

text \<open>The number of Black nodes on every path from the root to a null position, left to right.\<close>

fun black_counts :: "(nat \<Rightarrow> 'v Node) \<Rightarrow> atree \<Rightarrow> nat list" where
  "black_counts h Lf = [0]"
| "black_counts h (Nd l a r) =
     map (\<lambda>n. n + (if color (h a) = BLACK then 1 else 0)) (black_counts h l @ black_counts h r)"

definition equal_black_counts :: "(nat \<Rightarrow> 'v Node) \<Rightarrow> atree \<Rightarrow> bool" where
  "equal_black_counts h t = (length (remdups (black_counts h t)) = 1)"

definition strictly_sorted :: "(key \<Rightarrow> key \<Rightarrow> panic + int) \<Rightarrow> key list \<Rightarrow> bool" where
  "strictly_sorted c ks = sorted_wrt (\<lambda>a b. case c a b of Inl e \<Rightarrow> False | Inr i \<Rightarrow> i < 0) ks"

definition red_black :: "'v Tree \<Rightarrow> atree \<Rightarrow> bool" where
  "red_black s t =
     (root_color (store s) t = BLACK \<and> no_red_red (store s) t
      \<and> equal_black_counts (store s) t \<and> strictly_sorted (cmp s) (keys_of (store s) t))"

subsection \<open>Subtrees and rotations of the tree\<close>

fun subtree :: "atree \<Rightarrow> nat \<Rightarrow> atree" where
  "subtree Lf a = Lf"
| "subtree (Nd l b r) a =
     (if a = b then Nd l b r else if a \<in> set (addrs l) then subtree l a else subtree r a)"

fun replace :: "atree \<Rightarrow> nat \<Rightarrow> atree \<Rightarrow> atree" where
  "replace Lf a u = Lf"
| "replace (Nd l b r) a u =
     (if a = b then u
      else if a \<in> set (addrs l) then Nd (replace l a u) b r else Nd l b (replace r a u))"

fun rotl :: "atree \<Rightarrow> atree" where
  "rotl (Nd a x (Nd b y c)) = Nd (Nd a x b) y c"
| "rotl t = t"

fun rotr :: "atree \<Rightarrow> atree" where
  "rotr (Nd (Nd a x b) y c) = Nd a x (Nd b y c)"
| "rotr t = t"

definition holds_tree :: "'v Tree \<Rightarrow> atree \<Rightarrow> bool" where
  "holds_tree s t =
     (shape (store s) (Root s) t \<and> parents_ok (store s) None t \<and> distinct (addrs t))"

text \<open>Two states that differ in the links and the root only.\<close>

definition same_data :: "'v Tree \<Rightarrow> 'v Tree \<Rightarrow> bool" where
  "same_data s' s =
     (fresh s' = fresh s \<and> cmp s' = cmp s
      \<and> (\<forall>a. color (store s' a) = color (store s a) \<and> Key (store s' a) = Key (store s a)
             \<and> payload (store s' a) = payload (store s a) \<and> Leaf (store s' a) = Leaf (store s a)))"

subsection \<open>Example trees\<close>

text \<open>
  The tree that \<^verbatim>\<open>Put(1)\<close>, \<^verbatim>\<open>Put(2)\<close> build: the Black root 1 at address 0 and its
  Red right child 2 at address 1.
\<close>

definition twoNodes :: "unit Tree" where
  "twoNodes =
     \<lparr>Root = Some 0, cmp = IntComparator,
      store = (\<lambda>a. zeroNode)
        (0 := zeroNode\<lparr>Key := IntKey 1, color := BLACK, Right := Some 1\<rparr>,
         1 := zeroNode\<lparr>Key := IntKey 2, parent := Some 0\<rparr>),
      fresh = 2\<rparr>"

subsection \<open>The range query, as a function of the tree\<close>

text \<open>
  What \<^verbatim>\<open>getValuesInRange\<close> computes, written by recursion on the tree the store holds;
  \<open>kf\<close> gives the integer key of the node at an address. \<open>splitNode\<close> is the subtree at
  the first node of the descent (to the left child if there is one, else to the right
  child) whose key is in the interval. \<open>left_walk\<close> and \<open>right_walk\<close> give the addresses of
  the child nodes collected on the way and the childless node the walk ends at, or \<open>None\<close>
  when the walk steps to, or collects, a missing child.
\<close>

text \<open>
  The tree that \<^verbatim>\<open>main\<close> builds, its nodes at the addresses 0 to 24 in the order of
  their declaration, and its shape.
\<close>

definition mkNode :: "int \<Rightarrow> ref \<Rightarrow> ref \<Rightarrow> bool \<Rightarrow> unit Node" where
  "mkNode k l r f = zeroNode\<lparr>Key := IntKey k, Left := l, Right := r, Leaf := f\<rparr>"

definition mainNodes :: "unit Node list" where
  "mainNodes =
     [mkNode 3 None None True, mkNode 10 None None True, mkNode 19 None None True,
      mkNode 23 None None True, mkNode 30 None None True, mkNode 37 None None True,
      mkNode 49 None None True, mkNode 59 None None True, mkNode 62 None None True,
      mkNode 70 None None True, mkNode 80 None None True, mkNode 100 None None True,
      mkNode 3 (Some 0) (Some 1) False, mkNode 19 (Some 2) (Some 3) False,
      mkNode 30 (Some 4) (Some 5) False, mkNode 59 (Some 7) (Some 8) False,
      mkNode 70 (Some 9) (Some 10) False, mkNode 100 (Some 11) None False,
      mkNode 10 (Some 12) (Some 13) False, mkNode 37 (Some 14) (Some 6) False,
      mkNode 62 (Some 15) (Some 16) False, mkNode 89 None (Some 17) False,
      mkNode 23 (Some 18) (Some 19) False, mkNode 80 (Some 20) (Some 21) False,
      mkNode 49 (Some 22) (Some 23) False]"

definition mainTree :: "unit Tree" where
  "mainTree =
     \<lparr>Root = Some 24, cmp = IntComparator,
      store = (\<lambda>a. if a < length mainNodes then mainNodes ! a else zeroNode),
      fresh = 25\<rparr>"

definition leafAt :: "nat \<Rightarrow> atree" where
  "leafAt a = Nd Lf a Lf"

definition mainLeftShape :: atree where
  "mainLeftShape =
     Nd (Nd (Nd (leafAt 0) 12 (leafAt 1)) 18 (Nd (leafAt 2) 13 (leafAt 3))) 22
        (Nd (Nd (leafAt 4) 14 (leafAt 5)) 19 (leafAt 6))"

definition mainRightShape :: atree where
  "mainRightShape =
     Nd (Nd (Nd (leafAt 7) 15 (leafAt 8)) 20 (Nd (leafAt 9) 16 (leafAt 10))) 23
        (Nd Lf 21 (Nd (leafAt 11) 17 Lf))"

definition mainShape :: atree where
  "mainShape = Nd mainLeftShape 24 mainRightShape"

definition mainKey :: "nat \<Rightarrow> int" where
  "mainKey a = (case Key (store mainTree a) of IntKey i \<Rightarrow> i | _ \<Rightarrow> 0)"

fun splitNode :: "(nat \<Rightarrow> int) \<Rightarrow> int \<Rightarrow> int \<Rightarrow> atree \<Rightarrow> atree" where
  "splitNode kf x1 x2 Lf = Lf"
| "splitNode kf x1 x2 (Nd l a r) =
     (if x1 \<le> kf a \<and> kf a \<le> x2 then Nd l a r
      else if l \<noteq> Lf then splitNode kf x1 x2 l
      else splitNode kf x1 x2 r)"

fun left_walk :: "(nat \<Rightarrow> int) \<Rightarrow> int \<Rightarrow> atree \<Rightarrow> (nat list \<times> nat) option" where
  "left_walk kf x1 Lf = None"
| "left_walk kf x1 (Nd l a r) =
     (if l = Lf \<and> r = Lf then Some ([], a)
      else if x1 \<le> kf a then
        (case r of
           Lf \<Rightarrow> None
         | Nd rl b rr \<Rightarrow> map_option (\<lambda>(cs, e). (b # cs, e)) (left_walk kf x1 l))
      else left_walk kf x1 r)"

fun right_walk :: "(nat \<Rightarrow> int) \<Rightarrow> int \<Rightarrow> atree \<Rightarrow> (nat list \<times> nat) option" where
  "right_walk kf x2 Lf = None"
| "right_walk kf x2 (Nd l a r) =
     (if l = Lf \<and> r = Lf then Some ([], a)
      else if kf a \<le> x2 then
        (case l of
           Lf \<Rightarrow> None
         | Nd ll b lr \<Rightarrow> map_option (\<lambda>(cs, e). (b # cs, e)) (right_walk kf x2 r))
      else right_walk kf x2 l)"

definition if_in_range :: "(nat \<Rightarrow> int) \<Rightarrow> int \<Rightarrow> int \<Rightarrow> nat \<Rightarrow> nat list" where
  "if_in_range kf x1 x2 e = (if x1 \<le> kf e \<and> kf e \<le> x2 then [e] else [])"

definition range_result :: "(nat \<Rightarrow> int) \<Rightarrow> int \<Rightarrow> int \<Rightarrow> atree \<Rightarrow> panic + int list" where
  "range_result kf x1 x2 t =
     (case t of
        Lf \<Rightarrow> Inl NilDereference
      | Nd l0 a0 r0 \<Rightarrow>
          (case splitNode kf x1 x2 t of
             Lf \<Rightarrow> Inr []
           | Nd l v r \<Rightarrow>
               if l = Lf \<and> r = Lf then Inl NilDereference
               else
                 (case left_walk kf x1 l of
                    None \<Rightarrow> Inl NilDereference
                  | Some (cs, e) \<Rightarrow>
                      (case right_walk kf x2 r of
                         None \<Rightarrow> Inl NilDereference
                       | Some (ds, f) \<Rightarrow>
                           Inr (map kf (cs @ if_in_range kf x1 x2 e @ ds @ if_in_range kf x1 x2 f))))))"

text \<open>
  The left path as C4 words it: a node counts as a leaf by its \<open>Leaf\<close> flag, and at a node
  with \<open>lo \<le> key\<close> all keys of the right subtree are collected.
\<close>

fun claimed_left_walk ::
  "(nat \<Rightarrow> int) \<Rightarrow> (nat \<Rightarrow> bool) \<Rightarrow> int \<Rightarrow> int \<Rightarrow> atree \<Rightarrow> int list option" where
  "claimed_left_walk kf flag x1 x2 Lf = None"
| "claimed_left_walk kf flag x1 x2 (Nd l a r) =
     (if flag a then Some (if x1 \<le> kf a \<and> kf a \<le> x2 then [kf a] else [])
      else if x1 \<le> kf a then
        map_option (\<lambda>ks. map kf (addrs r) @ ks) (claimed_left_walk kf flag x1 x2 l)
      else claimed_left_walk kf flag x1 x2 r)"


fun root_ptr :: "atree \<Rightarrow> ref" where
  "root_ptr Lf = None"
| "root_ptr (Nd l a r) = Some a"

section \<open>Evaluation\<close>

declare internalLookup.simps [code]
declare getMinimum.simps [code]
declare fixupPut_loop.simps [code]
declare fixupDelete_loop.simps [code]
declare Visit.simps [code]
declare getSplitNode.simps [code]
declare goingLeft.simps [code]
declare goingRight.simps [code]

section \<open>Reasoning about the store\<close>

lemma store_set:
  "store (set_color a c t) = (store t)(a := (store t a)\<lparr>color := c\<rparr>)"
  "store (set_Left a v t) = (store t)(a := (store t a)\<lparr>Left := v\<rparr>)"
  "store (set_Right a v t) = (store t)(a := (store t a)\<lparr>Right := v\<rparr>)"
  "store (set_parent a v t) = (store t)(a := (store t a)\<lparr>parent := v\<rparr>)"
  "store (set_payload a d t) = (store t)(a := (store t a)\<lparr>payload := d\<rparr>)"
  by (simp_all add: set_color_def set_Left_def set_Right_def set_parent_def set_payload_def)

lemma fields_set_color [simp]:
  "Key (store (set_color a c t) b) = Key (store t b)"
  "payload (store (set_color a c t) b) = payload (store t b)"
  "color (store (set_color a c t) b) = (if b = a then c else color (store t b))"
  "Left (store (set_color a c t) b) = Left (store t b)"
  "Right (store (set_color a c t) b) = Right (store t b)"
  "Leaf (store (set_color a c t) b) = Leaf (store t b)"
  "parent (store (set_color a c t) b) = parent (store t b)"
  by (simp_all add: set_color_def)

lemma fields_set_Left [simp]:
  "Key (store (set_Left a v t) b) = Key (store t b)"
  "payload (store (set_Left a v t) b) = payload (store t b)"
  "color (store (set_Left a v t) b) = color (store t b)"
  "Left (store (set_Left a v t) b) = (if b = a then v else Left (store t b))"
  "Right (store (set_Left a v t) b) = Right (store t b)"
  "Leaf (store (set_Left a v t) b) = Leaf (store t b)"
  "parent (store (set_Left a v t) b) = parent (store t b)"
  by (simp_all add: set_Left_def)

lemma fields_set_Right [simp]:
  "Key (store (set_Right a v t) b) = Key (store t b)"
  "payload (store (set_Right a v t) b) = payload (store t b)"
  "color (store (set_Right a v t) b) = color (store t b)"
  "Left (store (set_Right a v t) b) = Left (store t b)"
  "Right (store (set_Right a v t) b) = (if b = a then v else Right (store t b))"
  "Leaf (store (set_Right a v t) b) = Leaf (store t b)"
  "parent (store (set_Right a v t) b) = parent (store t b)"
  by (simp_all add: set_Right_def)

lemma fields_set_parent [simp]:
  "Key (store (set_parent a v t) b) = Key (store t b)"
  "payload (store (set_parent a v t) b) = payload (store t b)"
  "color (store (set_parent a v t) b) = color (store t b)"
  "Left (store (set_parent a v t) b) = Left (store t b)"
  "Right (store (set_parent a v t) b) = Right (store t b)"
  "Leaf (store (set_parent a v t) b) = Leaf (store t b)"
  "parent (store (set_parent a v t) b) = (if b = a then v else parent (store t b))"
  by (simp_all add: set_parent_def)

lemma fields_set_payload [simp]:
  "Key (store (set_payload a d t) b) = Key (store t b)"
  "payload (store (set_payload a d t) b) = (if b = a then d else payload (store t b))"
  "color (store (set_payload a d t) b) = color (store t b)"
  "Left (store (set_payload a d t) b) = Left (store t b)"
  "Right (store (set_payload a d t) b) = Right (store t b)"
  "Leaf (store (set_payload a d t) b) = Leaf (store t b)"
  "parent (store (set_payload a d t) b) = parent (store t b)"
  by (simp_all add: set_payload_def)

lemma Root_set [simp]:
  "Root (set_color a c t) = Root t"
  "Root (set_Left a v t) = Root t"
  "Root (set_Right a v t) = Root t"
  "Root (set_parent a v t) = Root t"
  "Root (set_payload a d t) = Root t"
  by (simp_all add: set_color_def set_Left_def set_Right_def set_parent_def set_payload_def)

lemma cmp_set [simp]:
  "cmp (set_color a c t) = cmp t"
  "cmp (set_Left a v t) = cmp t"
  "cmp (set_Right a v t) = cmp t"
  "cmp (set_parent a v t) = cmp t"
  "cmp (set_payload a d t) = cmp t"
  by (simp_all add: set_color_def set_Left_def set_Right_def set_parent_def set_payload_def)

lemma fresh_set [simp]:
  "fresh (set_color a c t) = fresh t"
  "fresh (set_Left a v t) = fresh t"
  "fresh (set_Right a v t) = fresh t"
  "fresh (set_parent a v t) = fresh t"
  "fresh (set_payload a d t) = fresh t"
  by (simp_all add: set_color_def set_Left_def set_Right_def set_parent_def set_payload_def)

lemma shape_frame:
  "\<forall>a \<in> set (addrs t). Left (h' a) = Left (h a) \<and> Right (h' a) = Right (h a)
   \<Longrightarrow> shape h' p t = shape h p t"
  by (induction t arbitrary: p) auto

lemma parents_ok_frame:
  "\<forall>a \<in> set (addrs t). parent (h' a) = parent (h a)
   \<Longrightarrow> parents_ok h' par t = parents_ok h par t"
  by (induction t arbitrary: par) auto

lemma shape_unique: "shape h p t \<Longrightarrow> shape h p t' \<Longrightarrow> t = t'"
proof (induction t arbitrary: p t')
  case Lf
  then show ?case by (cases t') auto
next
  case (Nd l a r)
  then show ?case by (cases t') auto
qed

lemma subtree_in: "a \<in> set (addrs t) \<Longrightarrow> \<exists>l r. subtree t a = Nd l a r"
  by (induction t) auto

lemma subtree_addrs_subset: "set (addrs (subtree t a)) \<subseteq> set (addrs t)"
  by (induction t) auto

lemma subtree_distinct: "distinct (addrs t) \<Longrightarrow> distinct (addrs (subtree t a))"
  by (induction t) auto

lemma subtree_shape:
  "shape h p t \<Longrightarrow> a \<in> set (addrs t) \<Longrightarrow> shape h (Some a) (subtree t a)"
  by (induction t arbitrary: p) auto

lemma subtree_parents_ok:
  "parents_ok h par t \<Longrightarrow> a \<in> set (addrs t) \<Longrightarrow> parents_ok h (parent (h a)) (subtree t a)"
  by (induction t arbitrary: par) auto

text \<open>Where the parent pointer of a node of the tree points.\<close>

lemma parent_cases:
  "shape h p t \<Longrightarrow> parents_ok h par t \<Longrightarrow> distinct (addrs t) \<Longrightarrow> a \<in> set (addrs t) \<Longrightarrow>
   (p = Some a \<and> parent (h a) = par)
   \<or> (p \<noteq> Some a \<and> (\<exists>q. parent (h a) = Some q \<and> q \<in> set (addrs t) \<and> q \<notin> set (addrs (subtree t a))
        \<and> (Left (h q) = Some a \<or> Right (h q) = Some a)))"
proof (induction t arbitrary: p par)
  case Lf
  then show ?case by simp
next
  case (Nd l b r)
  show ?case
  proof (cases "a = b")
    case True
    with Nd.prems show ?thesis by simp
  next
    case False
    note ab = False
    show ?thesis
    proof (cases "a \<in> set (addrs l)")
      case True
      from Nd.prems have sl: "shape h (Left (h b)) l" and pl: "parents_ok h (Some b) l"
        and dl: "distinct (addrs l)" and bl: "b \<notin> set (addrs l)" by auto
      from Nd.IH(1)[OF sl pl dl True] 
      have "(Left (h b) = Some a \<and> parent (h a) = Some b)
        \<or> (\<exists>q. parent (h a) = Some q \<and> q \<in> set (addrs l) \<and> q \<notin> set (addrs (subtree l a))
        \<and> (Left (h q) = Some a \<or> Right (h q) = Some a))" by blast
      then show ?thesis
      proof
        assume "Left (h b) = Some a \<and> parent (h a) = Some b"
        moreover have "b \<notin> set (addrs (subtree l a))" using bl subtree_addrs_subset[of l a] by blast
        ultimately show ?thesis using ab True Nd.prems by auto
      next
        assume "\<exists>q. parent (h a) = Some q \<and> q \<in> set (addrs l) \<and> q \<notin> set (addrs (subtree l a))
        \<and> (Left (h q) = Some a \<or> Right (h q) = Some a)"
        then show ?thesis using ab True Nd.prems by auto
      qed
    next
      case False
      with ab Nd.prems have ar: "a \<in> set (addrs r)" by auto
      from Nd.prems have sr: "shape h (Right (h b)) r" and pr: "parents_ok h (Some b) r"
        and dr: "distinct (addrs r)" and br: "b \<notin> set (addrs r)" by auto
      from Nd.IH(2)[OF sr pr dr ar] 
      have "(Right (h b) = Some a \<and> parent (h a) = Some b)
        \<or> (\<exists>q. parent (h a) = Some q \<and> q \<in> set (addrs r) \<and> q \<notin> set (addrs (subtree r a))
        \<and> (Left (h q) = Some a \<or> Right (h q) = Some a))" by blast
      then show ?thesis
      proof
        assume "Right (h b) = Some a \<and> parent (h a) = Some b"
        moreover have "b \<notin> set (addrs (subtree r a))" using br subtree_addrs_subset[of r a] by blast
        ultimately show ?thesis using ab False Nd.prems by auto
      next
        assume "\<exists>q. parent (h a) = Some q \<and> q \<in> set (addrs r) \<and> q \<notin> set (addrs (subtree r a))
        \<and> (Left (h q) = Some a \<or> Right (h q) = Some a)"
        then show ?thesis using ab False Nd.prems by auto
      qed
    qed
  qed
qed

text \<open>
  Replacing the subtree at \<open>a\<close>: when the new store holds the tree \<open>u\<close> there, under the
  old parent of \<open>a\<close>, agrees with the old store outside the old subtree, and the old parent's
  child pointer to \<open>a\<close> now is \<open>q\<close>, then the new store holds the tree with \<open>u\<close> in place.
\<close>

lemma replace_holds:
  assumes "shape h p t" "parents_ok h par t" "distinct (addrs t)" "a \<in> set (addrs t)"
    and "shape h' q u" "parents_ok h' (parent (h a)) u"
    and "\<forall>b. b \<notin> set (addrs (subtree t a)) \<longrightarrow>
           parent (h' b) = parent (h b)
           \<and> Left (h' b) = (if Left (h b) = Some a \<and> parent (h a) = Some b then q else Left (h b))
           \<and> Right (h' b) = (if Right (h b) = Some a \<and> parent (h a) = Some b then q else Right (h b))"
  shows "shape h' (if p = Some a then q else p) (replace t a u)
         \<and> parents_ok h' par (replace t a u)"
  using assms(1-4,7)
proof (induction t arbitrary: p par)
  case Lf
  then show ?case by simp
next
  case (Nd l b r)
  show ?case
  proof (cases "a = b")
    case True
    with Nd.prems assms(5,6) show ?thesis by simp
  next
    case False
    note ab = False
    have pb: "p = Some b" using Nd.prems by simp
    show ?thesis
    proof (cases "a \<in> set (addrs l)")
      case True
      from Nd.prems have sl: "shape h (Left (h b)) l" and pl: "parents_ok h (Some b) l"
        and dl: "distinct (addrs l)" and bl: "b \<notin> set (addrs l)"
        and sr: "shape h (Right (h b)) r" and pr: "parents_ok h (Some b) r"
        and lr: "set (addrs l) \<inter> set (addrs r) = {}" and br: "b \<notin> set (addrs r)" by auto
      have sub: "subtree (Nd l b r) a = subtree l a" using ab True by simp
      have fr: "\<forall>c. c \<notin> set (addrs (subtree l a)) \<longrightarrow>
           parent (h' c) = parent (h c)
           \<and> Left (h' c) = (if Left (h c) = Some a \<and> parent (h a) = Some c then q else Left (h c))
           \<and> Right (h' c) = (if Right (h c) = Some a \<and> parent (h a) = Some c then q else Right (h c))"
        using Nd.prems(5) sub by simp
      from Nd.IH(1)[OF sl pl dl True fr]
      have IH: "shape h' (if Left (h b) = Some a then q else Left (h b)) (replace l a u)"
        "parents_ok h' (Some b) (replace l a u)" by auto
      have bsub: "b \<notin> set (addrs (subtree l a))" using bl subtree_addrs_subset[of l a] by blast
      have pc: "(Left (h b) = Some a \<and> parent (h a) = Some b)
         \<or> (Left (h b) \<noteq> Some a \<and> (\<exists>q. parent (h a) = Some q \<and> q \<in> set (addrs l)))"
        using parent_cases[OF sl pl dl True] by blast
      have ar: "a \<notin> set (addrs r)" using lr True by blast
      have Rb: "Right (h b) \<noteq> Some a" using sr ar by (cases r) auto
      have hb: "parent (h' b) = parent (h b)" "Right (h' b) = Right (h b)"
        "Left (h' b) = (if Left (h b) = Some a then q else Left (h b))"
        using fr bsub Rb pc bl by auto
      have rframe: "\<forall>c \<in> set (addrs r). parent (h' c) = parent (h c) \<and> Left (h' c) = Left (h c)
          \<and> Right (h' c) = Right (h c)"
      proof
        fix c assume c: "c \<in> set (addrs r)"
        then have cl: "c \<notin> set (addrs l)" using lr by blast
        then have "c \<notin> set (addrs (subtree l a))" using subtree_addrs_subset[of l a] by blast
        moreover have "parent (h a) \<noteq> Some c" using pc cl c br by auto
        ultimately show "parent (h' c) = parent (h c) \<and> Left (h' c) = Left (h c)
          \<and> Right (h' c) = Right (h c)" using fr by auto
      qed
      have "shape h' (Right (h b)) r" using shape_frame[of r h' h] rframe sr by blast
      moreover have "parents_ok h' (Some b) r" using parents_ok_frame[of r h' h] rframe pr by blast
      ultimately show ?thesis using ab True pb IH hb Nd.prems by simp
    next
      case False
      with ab Nd.prems have ar: "a \<in> set (addrs r)" by auto
      from Nd.prems have sl: "shape h (Left (h b)) l" and pl: "parents_ok h (Some b) l"
        and dr: "distinct (addrs r)" and bl: "b \<notin> set (addrs l)"
        and sr: "shape h (Right (h b)) r" and pr: "parents_ok h (Some b) r"
        and lr: "set (addrs l) \<inter> set (addrs r) = {}" and br: "b \<notin> set (addrs r)" by auto
      have sub: "subtree (Nd l b r) a = subtree r a" using ab False by simp
      have fr: "\<forall>c. c \<notin> set (addrs (subtree r a)) \<longrightarrow>
           parent (h' c) = parent (h c)
           \<and> Left (h' c) = (if Left (h c) = Some a \<and> parent (h a) = Some c then q else Left (h c))
           \<and> Right (h' c) = (if Right (h c) = Some a \<and> parent (h a) = Some c then q else Right (h c))"
        using Nd.prems(5) sub by simp
      from Nd.IH(2)[OF sr pr dr ar fr]
      have IH: "shape h' (if Right (h b) = Some a then q else Right (h b)) (replace r a u)"
        "parents_ok h' (Some b) (replace r a u)" by auto
      have bsub: "b \<notin> set (addrs (subtree r a))" using br subtree_addrs_subset[of r a] by blast
      have pc: "(Right (h b) = Some a \<and> parent (h a) = Some b)
         \<or> (Right (h b) \<noteq> Some a \<and> (\<exists>q. parent (h a) = Some q \<and> q \<in> set (addrs r)))"
        using parent_cases[OF sr pr dr ar] by blast
      have Lb: "Left (h b) \<noteq> Some a" using sl False by (cases l) auto
      have hb: "parent (h' b) = parent (h b)" "Left (h' b) = Left (h b)"
        "Right (h' b) = (if Right (h b) = Some a then q else Right (h b))"
        using fr bsub Lb pc br by auto
      have lframe: "\<forall>c \<in> set (addrs l). parent (h' c) = parent (h c) \<and> Left (h' c) = Left (h c)
          \<and> Right (h' c) = Right (h c)"
      proof
        fix c assume c: "c \<in> set (addrs l)"
        then have cl: "c \<notin> set (addrs r)" using lr by blast
        then have "c \<notin> set (addrs (subtree r a))" using subtree_addrs_subset[of r a] by blast
        moreover have "parent (h a) \<noteq> Some c" using pc cl c bl by auto
        ultimately show "parent (h' c) = parent (h c) \<and> Left (h' c) = Left (h c)
          \<and> Right (h' c) = Right (h c)" using fr by auto
      qed
      have "shape h' (Left (h b)) l" using shape_frame[of l h' h] lframe sl by blast
      moreover have "parents_ok h' (Some b) l" using parents_ok_frame[of l h' h] lframe pl by blast
      ultimately show ?thesis using ab False pb IH hb Nd.prems by simp
    qed
  qed
qed

lemma replace_addrs:
  "a \<in> set (addrs t) \<Longrightarrow> distinct (addrs t) \<Longrightarrow> addrs u = addrs (subtree t a)
   \<Longrightarrow> addrs (replace t a u) = addrs t"
  by (induction t) auto

section \<open>Rotations on a tree in the store\<close>

lemma same_data_refl [simp]: "same_data s s"
  by (simp add: same_data_def)

lemma same_data_steps [simp]:
  "same_data (set_Left a v t) s = same_data t s"
  "same_data (set_Right a v t) s = same_data t s"
  "same_data (set_parent a v t) s = same_data t s"
  "same_data (t\<lparr>Root := r\<rparr>) s = same_data t s"
  by (simp_all add: same_data_def)

lemma same_data_case:
  "same_data t s \<Longrightarrow> (\<And>b. same_data (f b) s) \<Longrightarrow>
   same_data (case opt of None \<Rightarrow> t | Some b \<Rightarrow> f b) s"
  by (cases opt) auto

lemma same_data_if:
  "same_data t s \<Longrightarrow> same_data u s \<Longrightarrow> same_data (if c then t else u) s"
  by simp

lemma RotateLeft_same_data: "same_data (RotateLeft x s) s"
  unfolding RotateLeft_def Let_def
  by ((intro same_data_case same_data_if | simp)+)

lemma RotateRight_same_data: "same_data (RotateRight x s) s"
  unfolding RotateRight_def Let_def
  by ((intro same_data_case same_data_if | simp)+)

lemma RotateLeft_same [simp]:
  "color (store (RotateLeft x s) a) = color (store s a)"
  "Key (store (RotateLeft x s) a) = Key (store s a)"
  "payload (store (RotateLeft x s) a) = payload (store s a)"
  "Leaf (store (RotateLeft x s) a) = Leaf (store s a)"
  "fresh (RotateLeft x s) = fresh s"
  "cmp (RotateLeft x s) = cmp s"
  using RotateLeft_same_data[of x s] by (simp_all add: same_data_def)

lemma RotateRight_same [simp]:
  "color (store (RotateRight x s) a) = color (store s a)"
  "Key (store (RotateRight x s) a) = Key (store s a)"
  "payload (store (RotateRight x s) a) = payload (store s a)"
  "Leaf (store (RotateRight x s) a) = Leaf (store s a)"
  "fresh (RotateRight x s) = fresh s"
  "cmp (RotateRight x s) = cmp s"
  using RotateRight_same_data[of x s] by (simp_all add: same_data_def)

lemma RotateLeft_nil [simp]: "Right (store s x) = None \<Longrightarrow> RotateLeft (Some x) s = s"
  by (simp add: RotateLeft_def)

lemma RotateRight_nil [simp]: "Left (store s y) = None \<Longrightarrow> RotateRight (Some y) s = s"
  by (simp add: RotateRight_def)

lemma RotateLeft_fields:
  assumes "Right (store s x) = Some y" "x \<noteq> y"
    "Left (store s y) \<noteq> Some x" "Left (store s y) \<noteq> Some y"
    "\<forall>p. parent (store s x) = Some p \<longrightarrow> p \<noteq> x \<and> p \<noteq> y \<and> Left (store s y) \<noteq> Some p"
  shows
    "Left (store (RotateLeft (Some x) s) a) =
       (if a = y then Some x
        else if parent (store s x) = Some a \<and> Left (store s a) = Some x then Some y
        else Left (store s a))"
    "Right (store (RotateLeft (Some x) s) a) =
       (if a = x then Left (store s y)
        else if parent (store s x) = Some a \<and> Left (store s a) \<noteq> Some x then Some y
        else Right (store s a))"
    "parent (store (RotateLeft (Some x) s) a) =
       (if a = x then Some y
        else if a = y then parent (store s x)
        else if Left (store s y) = Some a then Some x
        else parent (store s a))"
    "Root (RotateLeft (Some x) s) = (if parent (store s x) = None then Some y else Root s)"
proof -
  consider (nn) "Left (store s y) = None" "parent (store s x) = None"
    | (sn) b where "Left (store s y) = Some b" "parent (store s x) = None"
    | (nl) p where "Left (store s y) = None" "parent (store s x) = Some p" "Left (store s p) = Some x"
    | (nr) p where "Left (store s y) = None" "parent (store s x) = Some p" "Left (store s p) \<noteq> Some x"
    | (sl) b p where "Left (store s y) = Some b" "parent (store s x) = Some p" "Left (store s p) = Some x"
    | (sr) b p where "Left (store s y) = Some b" "parent (store s x) = Some p" "Left (store s p) \<noteq> Some x"
    by (cases "Left (store s y)"; cases "parent (store s x)") auto
  then have all: "(Left (store (RotateLeft (Some x) s) a) =
       (if a = y then Some x
        else if parent (store s x) = Some a \<and> Left (store s a) = Some x then Some y
        else Left (store s a))) \<and>
    (Right (store (RotateLeft (Some x) s) a) =
       (if a = x then Left (store s y)
        else if parent (store s x) = Some a \<and> Left (store s a) \<noteq> Some x then Some y
        else Right (store s a))) \<and>
    (parent (store (RotateLeft (Some x) s) a) =
       (if a = x then Some y
        else if a = y then parent (store s x)
        else if Left (store s y) = Some a then Some x
        else parent (store s a))) \<and>
    (Root (RotateLeft (Some x) s) = (if parent (store s x) = None then Some y else Root s))"
  proof cases
    case nn
    then show ?thesis using assms by (auto simp add: RotateLeft_def Let_def)
  next
    case sn
    then show ?thesis using assms by (auto simp add: RotateLeft_def Let_def)
  next
    case nl
    then show ?thesis using assms by (auto simp add: RotateLeft_def Let_def)
  next
    case nr
    then show ?thesis using assms by (auto simp add: RotateLeft_def Let_def)
  next
    case sl
    then show ?thesis using assms by (auto simp add: RotateLeft_def Let_def)
  next
    case sr
    then show ?thesis using assms by (auto simp add: RotateLeft_def Let_def)
  qed
  show "Left (store (RotateLeft (Some x) s) a) =
       (if a = y then Some x
        else if parent (store s x) = Some a \<and> Left (store s a) = Some x then Some y
        else Left (store s a))"
    using all by (elim conjE)
  show "Right (store (RotateLeft (Some x) s) a) =
       (if a = x then Left (store s y)
        else if parent (store s x) = Some a \<and> Left (store s a) \<noteq> Some x then Some y
        else Right (store s a))"
    using all by (elim conjE)
  show "parent (store (RotateLeft (Some x) s) a) =
       (if a = x then Some y
        else if a = y then parent (store s x)
        else if Left (store s y) = Some a then Some x
        else parent (store s a))"
    using all by (elim conjE)
  show "Root (RotateLeft (Some x) s) = (if parent (store s x) = None then Some y else Root s)"
    using all by (elim conjE)
qed

lemma RotateRight_fields:
  assumes "Left (store s y) = Some x" "x \<noteq> y"
    "Right (store s x) \<noteq> Some x" "Right (store s x) \<noteq> Some y"
    "\<forall>p. parent (store s y) = Some p \<longrightarrow> p \<noteq> x \<and> p \<noteq> y \<and> Right (store s x) \<noteq> Some p"
  shows
    "Left (store (RotateRight (Some y) s) a) =
       (if a = y then Right (store s x)
        else if parent (store s y) = Some a \<and> Left (store s a) = Some y then Some x
        else Left (store s a))"
    "Right (store (RotateRight (Some y) s) a) =
       (if a = x then Some y
        else if parent (store s y) = Some a \<and> Left (store s a) \<noteq> Some y then Some x
        else Right (store s a))"
    "parent (store (RotateRight (Some y) s) a) =
       (if a = y then Some x
        else if a = x then parent (store s y)
        else if Right (store s x) = Some a then Some y
        else parent (store s a))"
    "Root (RotateRight (Some y) s) = (if parent (store s y) = None then Some x else Root s)"
proof -
  consider (nn) "Right (store s x) = None" "parent (store s y) = None"
    | (sn) b where "Right (store s x) = Some b" "parent (store s y) = None"
    | (nl) p where "Right (store s x) = None" "parent (store s y) = Some p" "Left (store s p) = Some y"
    | (nr) p where "Right (store s x) = None" "parent (store s y) = Some p" "Left (store s p) \<noteq> Some y"
    | (sl) b p where "Right (store s x) = Some b" "parent (store s y) = Some p" "Left (store s p) = Some y"
    | (sr) b p where "Right (store s x) = Some b" "parent (store s y) = Some p" "Left (store s p) \<noteq> Some y"
    by (cases "Right (store s x)"; cases "parent (store s y)") auto
  then have all: "(Left (store (RotateRight (Some y) s) a) =
       (if a = y then Right (store s x)
        else if parent (store s y) = Some a \<and> Left (store s a) = Some y then Some x
        else Left (store s a))) \<and>
    (Right (store (RotateRight (Some y) s) a) =
       (if a = x then Some y
        else if parent (store s y) = Some a \<and> Left (store s a) \<noteq> Some y then Some x
        else Right (store s a))) \<and>
    (parent (store (RotateRight (Some y) s) a) =
       (if a = y then Some x
        else if a = x then parent (store s y)
        else if Right (store s x) = Some a then Some y
        else parent (store s a))) \<and>
    (Root (RotateRight (Some y) s) = (if parent (store s y) = None then Some x else Root s))"
  proof cases
    case nn
    then show ?thesis using assms by (auto simp add: RotateRight_def Let_def)
  next
    case sn
    then show ?thesis using assms by (auto simp add: RotateRight_def Let_def)
  next
    case nl
    then show ?thesis using assms by (auto simp add: RotateRight_def Let_def)
  next
    case nr
    then show ?thesis using assms by (auto simp add: RotateRight_def Let_def)
  next
    case sl
    then show ?thesis using assms by (auto simp add: RotateRight_def Let_def)
  next
    case sr
    then show ?thesis using assms by (auto simp add: RotateRight_def Let_def)
  qed
  show "Left (store (RotateRight (Some y) s) a) =
       (if a = y then Right (store s x)
        else if parent (store s y) = Some a \<and> Left (store s a) = Some y then Some x
        else Left (store s a))"
    using all by (elim conjE)
  show "Right (store (RotateRight (Some y) s) a) =
       (if a = x then Some y
        else if parent (store s y) = Some a \<and> Left (store s a) \<noteq> Some y then Some x
        else Right (store s a))"
    using all by (elim conjE)
  show "parent (store (RotateRight (Some y) s) a) =
       (if a = y then Some x
        else if a = x then parent (store s y)
        else if Right (store s x) = Some a then Some y
        else parent (store s a))"
    using all by (elim conjE)
  show "Root (RotateRight (Some y) s) = (if parent (store s y) = None then Some x else Root s)"
    using all by (elim conjE)
qed

lemma shape_ptr: "shape h p t \<Longrightarrow> p = None \<or> (\<exists>a \<in> set (addrs t). p = Some a)"
  by (cases t) auto

lemma shape_Some: "shape h (Some a) t \<Longrightarrow> \<exists>l r. t = Nd l a r"
  by (cases t) auto

lemma replace_subtree_id: "replace t a (subtree t a) = t"
  by (induction t) auto

lemma children_distinct:
  assumes "shape h p t" "distinct (addrs t)" "b \<in> set (addrs t)" "Left (h b) = Some c"
  shows "Right (h b) \<noteq> Some c"
proof -
  have sb: "shape h (Some b) (subtree t b)" using assms subtree_shape by blast
  then obtain l r where lr: "subtree t b = Nd l b r" using shape_Some by blast
  with sb have "shape h (Left (h b)) l" "shape h (Right (h b)) r" by auto
  moreover have "distinct (addrs (Nd l b r))" using subtree_distinct[OF assms(2), of b] lr by simp
  ultimately show ?thesis using assms(4) shape_ptr[of h "Left (h b)" l] shape_ptr[of h "Right (h b)" r]
    by auto
qed

lemma RotateLeft_holds:
  assumes "holds_tree s t" "x \<in> set (addrs t)"
  shows "holds_tree (RotateLeft (Some x) s) (replace t x (rotl (subtree t x)))
         \<and> addrs (replace t x (rotl (subtree t x))) = addrs t"
proof -
  let ?h = "store s"
  from assms(1) have sh: "shape ?h (Root s) t" and po: "parents_ok ?h None t"
    and di: "distinct (addrs t)" by (simp_all add: holds_tree_def)
  have sx: "shape ?h (Some x) (subtree t x)" using sh assms(2) subtree_shape by blast
  then obtain A R where sub: "subtree t x = Nd A x R" using shape_Some by blast
  have px: "parents_ok ?h (parent (?h x)) (subtree t x)" using po assms(2) subtree_parents_ok by blast
  have dx: "distinct (addrs (subtree t x))" using di subtree_distinct by blast
  show ?thesis
  proof (cases R)
    case Lf
    then have "Right (?h x) = None" using sx sub by simp
    then show ?thesis using Lf sub assms(1) replace_subtree_id[of t x] by simp
  next
    case (Nd B y C)
    note R = Nd
    have shA: "shape ?h (Left (?h x)) A" and Rx: "Right (?h x) = Some y"
      and shB: "shape ?h (Left (?h y)) B" and shC: "shape ?h (Right (?h y)) C"
      using sx sub R by auto
    have poA: "parents_ok ?h (Some x) A" and py: "parent (?h y) = Some x"
      and poB: "parents_ok ?h (Some y) B" and poC: "parents_ok ?h (Some y) C"
      using px sub R by auto
    have dis: "x \<noteq> y" "x \<notin> set (addrs A)" "x \<notin> set (addrs B)" "x \<notin> set (addrs C)"
      "y \<notin> set (addrs A)" "y \<notin> set (addrs B)" "y \<notin> set (addrs C)"
      "\<forall>a \<in> set (addrs A). a \<notin> set (addrs B)" "\<forall>a \<in> set (addrs A). a \<notin> set (addrs C)"
      "\<forall>a \<in> set (addrs B). a \<notin> set (addrs C)"
      "distinct (addrs A)" "distinct (addrs B)" "distinct (addrs C)"
      using dx sub R by auto
    have subset: "set (addrs (subtree t x)) = insert x (insert y (set (addrs A) \<union> set (addrs B) \<union> set (addrs C)))"
      using sub R by auto
    have Ly: "Left (?h y) = None \<or> (\<exists>b \<in> set (addrs B). Left (?h y) = Some b)"
      using shape_ptr[OF shB] .
    have pc: "(Root s = Some x \<and> parent (?h x) = None)
       \<or> (Root s \<noteq> Some x \<and> (\<exists>q. parent (?h x) = Some q \<and> q \<in> set (addrs t)
            \<and> q \<notin> set (addrs (subtree t x))
            \<and> (Left (?h q) = Some x \<or> Right (?h q) = Some x)))"
      using parent_cases[OF sh po di assms(2)] by blast
    have inner: "\<And>a. a \<in> set (addrs (subtree t x)) \<Longrightarrow> parent (?h x) \<noteq> Some a"
      using pc by auto
    have LyB: "\<And>a. Left (?h y) = Some a \<Longrightarrow> a \<in> set (addrs B)"
      using Ly by auto
    have loc1: "Left (?h y) \<noteq> Some x" "Left (?h y) \<noteq> Some y"
      using LyB dis(3,6) by blast+
    have loc2: "\<forall>p. parent (?h x) = Some p \<longrightarrow> p \<noteq> x \<and> p \<noteq> y \<and> Left (?h y) \<noteq> Some p"
    proof (intro allI impI)
      fix p assume p: "parent (?h x) = Some p"
      then have "p \<notin> set (addrs (subtree t x))" using inner by blast
      then show "p \<noteq> x \<and> p \<noteq> y \<and> Left (?h y) \<noteq> Some p" using subset LyB by auto
    qed
    note loc = loc1 loc2
    note F = RotateLeft_fields[OF Rx dis(1) loc]
    let ?s' = "RotateLeft (Some x) s"
    let ?h' = "store ?s'"
    let ?u = "Nd (Nd A x B) y C"
    have out: "\<And>a. a \<noteq> x \<Longrightarrow> a \<noteq> y \<Longrightarrow> parent (?h x) \<noteq> Some a \<Longrightarrow>
         Left (?h' a) = Left (?h a) \<and> Right (?h' a) = Right (?h a)
          \<and> parent (?h' a) = (if Left (?h y) = Some a then Some x else parent (?h a))"
      by (simp add: F(1-3))
    have LyA: "\<And>a. a \<in> set (addrs A) \<Longrightarrow> Left (?h y) \<noteq> Some a"
      using Ly dis(8) by auto
    have LyC: "\<And>a. a \<in> set (addrs C) \<Longrightarrow> Left (?h y) \<noteq> Some a"
      using Ly dis(10) dis(7) by auto
    have memA: "\<And>a. a \<in> set (addrs A) \<Longrightarrow> a \<in> set (addrs (subtree t x))"
      and memB: "\<And>a. a \<in> set (addrs B) \<Longrightarrow> a \<in> set (addrs (subtree t x))"
      and memC: "\<And>a. a \<in> set (addrs C) \<Longrightarrow> a \<in> set (addrs (subtree t x))"
      by (simp_all add: subset)
    have frA: "\<forall>a \<in> set (addrs A). Left (?h' a) = Left (?h a) \<and> Right (?h' a) = Right (?h a)
          \<and> parent (?h' a) = parent (?h a)"
    proof
      fix a assume a: "a \<in> set (addrs A)"
      have 1: "a \<noteq> x" using a dis(2) by blast
      have 2: "a \<noteq> y" using a dis(5) by blast
      have 3: "parent (?h x) \<noteq> Some a" using inner[OF memA[OF a]] .
      have 4: "Left (?h y) \<noteq> Some a" using LyA[OF a] .
      show "Left (?h' a) = Left (?h a) \<and> Right (?h' a) = Right (?h a)
          \<and> parent (?h' a) = parent (?h a)" using out[OF 1 2 3] 4 by simp
    qed
    have frC: "\<forall>a \<in> set (addrs C). Left (?h' a) = Left (?h a) \<and> Right (?h' a) = Right (?h a)
          \<and> parent (?h' a) = parent (?h a)"
    proof
      fix a assume a: "a \<in> set (addrs C)"
      have 1: "a \<noteq> x" using a dis(4) by blast
      have 2: "a \<noteq> y" using a dis(7) by blast
      have 3: "parent (?h x) \<noteq> Some a" using inner[OF memC[OF a]] .
      have 4: "Left (?h y) \<noteq> Some a" using LyC[OF a] .
      show "Left (?h' a) = Left (?h a) \<and> Right (?h' a) = Right (?h a)
          \<and> parent (?h' a) = parent (?h a)" using out[OF 1 2 3] 4 by simp
    qed
    have frB: "\<forall>a \<in> set (addrs B). Left (?h' a) = Left (?h a) \<and> Right (?h' a) = Right (?h a)
          \<and> parent (?h' a) = (if Left (?h y) = Some a then Some x else parent (?h a))"
    proof
      fix a assume a: "a \<in> set (addrs B)"
      have 1: "a \<noteq> x" using a dis(3) by blast
      have 2: "a \<noteq> y" using a dis(6) by blast
      have 3: "parent (?h x) \<noteq> Some a" using inner[OF memB[OF a]] .
      show "Left (?h' a) = Left (?h a) \<and> Right (?h' a) = Right (?h a)
          \<and> parent (?h' a) = (if Left (?h y) = Some a then Some x else parent (?h a))"
        using out[OF 1 2 3] .
    qed
    have sA: "shape ?h' (Left (?h x)) A" using shape_frame[of A ?h' ?h] frA shA by blast
    have sB: "shape ?h' (Left (?h y)) B" using shape_frame[of B ?h' ?h] frB shB by blast
    have sC: "shape ?h' (Right (?h y)) C" using shape_frame[of C ?h' ?h] frC shC by blast
    have pA: "parents_ok ?h' (Some x) A" using parents_ok_frame[of A ?h' ?h] frA poA by blast
    have pC: "parents_ok ?h' (Some y) C" using parents_ok_frame[of C ?h' ?h] frC poC by blast
    have pB: "parents_ok ?h' (Some x) B"
    proof (cases B)
      case Lf
      then show ?thesis by simp
    next
      case (Nd Bl b Br)
      have Lyb: "Left (?h y) = Some b" using shB Nd by simp
      have "\<forall>a \<in> set (addrs Bl). parent (?h' a) = parent (?h a)"
        using frB Nd Lyb dis(12) by auto
      then have 1: "parents_ok ?h' (Some b) Bl" using parents_ok_frame[of Bl ?h' ?h] poB Nd by auto
      have "\<forall>a \<in> set (addrs Br). parent (?h' a) = parent (?h a)"
        using frB Nd Lyb dis(12) by auto
      then have 2: "parents_ok ?h' (Some b) Br" using parents_ok_frame[of Br ?h' ?h] poB Nd by auto
      have "parent (?h' b) = Some x" using frB Nd Lyb by simp
      then show ?thesis using 1 2 Nd by simp
    qed
    have pxy: "parent (?h x) \<noteq> Some x" "parent (?h x) \<noteq> Some y"
      using inner[of x] inner[of y] subset by auto
    have xy: "Left (?h' y) = Some x" "Right (?h' y) = Right (?h y)" "parent (?h' y) = parent (?h x)"
      "Left (?h' x) = Left (?h x)" "Right (?h' x) = Left (?h y)" "parent (?h' x) = Some y"
      using dis(1) pxy by (simp_all add: F(1-3))
    have su: "shape ?h' (Some y) ?u" using sA sB sC xy by simp
    have pu: "parents_ok ?h' (parent (?h x)) ?u" using pA pB pC xy by simp
    have frame: "\<forall>b. b \<notin> set (addrs (subtree t x)) \<longrightarrow>
           parent (?h' b) = parent (?h b)
           \<and> Left (?h' b) = (if Left (?h b) = Some x \<and> parent (?h x) = Some b then Some y else Left (?h b))
           \<and> Right (?h' b) = (if Right (?h b) = Some x \<and> parent (?h x) = Some b then Some y else Right (?h b))"
    proof (intro allI impI)
      fix b assume b: "b \<notin> set (addrs (subtree t x))"
      then have bne: "b \<noteq> x" "b \<noteq> y" "Left (?h y) \<noteq> Some b" using subset LyB by auto
      have "parent (?h x) = Some b \<Longrightarrow> (Left (?h b) \<noteq> Some x) = (Right (?h b) = Some x)"
      proof -
        assume pb: "parent (?h x) = Some b"
        then have bt: "b \<in> set (addrs t)" and ch: "Left (?h b) = Some x \<or> Right (?h b) = Some x"
          using pc by auto
        show ?thesis using ch children_distinct[OF sh di bt] by auto
      qed
      then show "parent (?h' b) = parent (?h b)
           \<and> Left (?h' b) = (if Left (?h b) = Some x \<and> parent (?h x) = Some b then Some y else Left (?h b))
           \<and> Right (?h' b) = (if Right (?h b) = Some x \<and> parent (?h x) = Some b then Some y else Right (?h b))"
        using bne by (cases "parent (?h x) = Some b") (simp_all add: F(1-3))
    qed
    have rep: "shape ?h' (if Root s = Some x then Some y else Root s) (replace t x ?u)
         \<and> parents_ok ?h' None (replace t x ?u)"
      using replace_holds[OF sh po di assms(2) su pu frame] .
    have root: "Root ?s' = (if Root s = Some x then Some y else Root s)"
      using pc by (auto simp add: F(4))
    have ad: "addrs (replace t x ?u) = addrs t"
      using replace_addrs[OF assms(2) di, of ?u] sub R by simp
    show ?thesis using rep root ad di sub R by (simp add: holds_tree_def)
  qed
qed

lemma RotateRight_holds:
  assumes "holds_tree s t" "y \<in> set (addrs t)"
  shows "holds_tree (RotateRight (Some y) s) (replace t y (rotr (subtree t y)))
         \<and> addrs (replace t y (rotr (subtree t y))) = addrs t"
proof -
  let ?h = "store s"
  from assms(1) have sh: "shape ?h (Root s) t" and po: "parents_ok ?h None t"
    and di: "distinct (addrs t)" by (simp_all add: holds_tree_def)
  have sy: "shape ?h (Some y) (subtree t y)" using sh assms(2) subtree_shape by blast
  then obtain L C where sub: "subtree t y = Nd L y C" using shape_Some by blast
  have py: "parents_ok ?h (parent (?h y)) (subtree t y)" using po assms(2) subtree_parents_ok by blast
  have dy: "distinct (addrs (subtree t y))" using di subtree_distinct by blast
  show ?thesis
  proof (cases L)
    case Lf
    then have "Left (?h y) = None" using sy sub by simp
    then show ?thesis using Lf sub assms(1) replace_subtree_id[of t y] by simp
  next
    case (Nd A x B)
    note L = Nd
    have shA: "shape ?h (Left (?h x)) A" and Ly: "Left (?h y) = Some x"
      and shB: "shape ?h (Right (?h x)) B" and shC: "shape ?h (Right (?h y)) C"
      using sy sub L by auto
    have poA: "parents_ok ?h (Some x) A" and px: "parent (?h x) = Some y"
      and poB: "parents_ok ?h (Some x) B" and poC: "parents_ok ?h (Some y) C"
      using py sub L by auto
    have dis: "x \<noteq> y" "x \<notin> set (addrs A)" "x \<notin> set (addrs B)" "x \<notin> set (addrs C)"
      "y \<notin> set (addrs A)" "y \<notin> set (addrs B)" "y \<notin> set (addrs C)"
      "\<forall>a \<in> set (addrs A). a \<notin> set (addrs B)" "\<forall>a \<in> set (addrs A). a \<notin> set (addrs C)"
      "\<forall>a \<in> set (addrs B). a \<notin> set (addrs C)"
      "distinct (addrs A)" "distinct (addrs B)" "distinct (addrs C)"
      using dy sub L by auto
    have subset: "set (addrs (subtree t y)) = insert x (insert y (set (addrs A) \<union> set (addrs B) \<union> set (addrs C)))"
      using sub L by auto
    have Rx: "Right (?h x) = None \<or> (\<exists>b \<in> set (addrs B). Right (?h x) = Some b)"
      using shape_ptr[OF shB] .
    have pc: "(Root s = Some y \<and> parent (?h y) = None)
       \<or> (Root s \<noteq> Some y \<and> (\<exists>q. parent (?h y) = Some q \<and> q \<in> set (addrs t)
            \<and> q \<notin> set (addrs (subtree t y))
            \<and> (Left (?h q) = Some y \<or> Right (?h q) = Some y)))"
      using parent_cases[OF sh po di assms(2)] by blast
    have inner: "\<And>a. a \<in> set (addrs (subtree t y)) \<Longrightarrow> parent (?h y) \<noteq> Some a"
      using pc by auto
    have RxB: "\<And>a. Right (?h x) = Some a \<Longrightarrow> a \<in> set (addrs B)"
      using Rx by auto
    have loc1: "Right (?h x) \<noteq> Some x" "Right (?h x) \<noteq> Some y"
      using RxB dis(3,6) by blast+
    have loc2: "\<forall>p. parent (?h y) = Some p \<longrightarrow> p \<noteq> x \<and> p \<noteq> y \<and> Right (?h x) \<noteq> Some p"
    proof (intro allI impI)
      fix p assume p: "parent (?h y) = Some p"
      then have "p \<notin> set (addrs (subtree t y))" using inner by blast
      then show "p \<noteq> x \<and> p \<noteq> y \<and> Right (?h x) \<noteq> Some p" using subset RxB by auto
    qed
    note loc = loc1 loc2
    note F = RotateRight_fields[OF Ly dis(1) loc]
    let ?s' = "RotateRight (Some y) s"
    let ?h' = "store ?s'"
    let ?u = "Nd A x (Nd B y C)"
    have out: "\<And>a. a \<noteq> x \<Longrightarrow> a \<noteq> y \<Longrightarrow> parent (?h y) \<noteq> Some a \<Longrightarrow>
         Left (?h' a) = Left (?h a) \<and> Right (?h' a) = Right (?h a)
          \<and> parent (?h' a) = (if Right (?h x) = Some a then Some y else parent (?h a))"
      by (simp add: F(1-3))
    have RxA: "\<And>a. a \<in> set (addrs A) \<Longrightarrow> Right (?h x) \<noteq> Some a"
      using Rx dis(8) by auto
    have RxC: "\<And>a. a \<in> set (addrs C) \<Longrightarrow> Right (?h x) \<noteq> Some a"
      using Rx dis(10) by auto
    have memA: "\<And>a. a \<in> set (addrs A) \<Longrightarrow> a \<in> set (addrs (subtree t y))"
      and memB: "\<And>a. a \<in> set (addrs B) \<Longrightarrow> a \<in> set (addrs (subtree t y))"
      and memC: "\<And>a. a \<in> set (addrs C) \<Longrightarrow> a \<in> set (addrs (subtree t y))"
      by (simp_all add: subset)
    have frA: "\<forall>a \<in> set (addrs A). Left (?h' a) = Left (?h a) \<and> Right (?h' a) = Right (?h a)
          \<and> parent (?h' a) = parent (?h a)"
    proof
      fix a assume a: "a \<in> set (addrs A)"
      have 1: "a \<noteq> x" using a dis(2) by blast
      have 2: "a \<noteq> y" using a dis(5) by blast
      have 3: "parent (?h y) \<noteq> Some a" using inner[OF memA[OF a]] .
      have 4: "Right (?h x) \<noteq> Some a" using RxA[OF a] .
      show "Left (?h' a) = Left (?h a) \<and> Right (?h' a) = Right (?h a)
          \<and> parent (?h' a) = parent (?h a)" using out[OF 1 2 3] 4 by simp
    qed
    have frC: "\<forall>a \<in> set (addrs C). Left (?h' a) = Left (?h a) \<and> Right (?h' a) = Right (?h a)
          \<and> parent (?h' a) = parent (?h a)"
    proof
      fix a assume a: "a \<in> set (addrs C)"
      have 1: "a \<noteq> x" using a dis(4) by blast
      have 2: "a \<noteq> y" using a dis(7) by blast
      have 3: "parent (?h y) \<noteq> Some a" using inner[OF memC[OF a]] .
      have 4: "Right (?h x) \<noteq> Some a" using RxC[OF a] .
      show "Left (?h' a) = Left (?h a) \<and> Right (?h' a) = Right (?h a)
          \<and> parent (?h' a) = parent (?h a)" using out[OF 1 2 3] 4 by simp
    qed
    have frB: "\<forall>a \<in> set (addrs B). Left (?h' a) = Left (?h a) \<and> Right (?h' a) = Right (?h a)
          \<and> parent (?h' a) = (if Right (?h x) = Some a then Some y else parent (?h a))"
    proof
      fix a assume a: "a \<in> set (addrs B)"
      have 1: "a \<noteq> x" using a dis(3) by blast
      have 2: "a \<noteq> y" using a dis(6) by blast
      have 3: "parent (?h y) \<noteq> Some a" using inner[OF memB[OF a]] .
      show "Left (?h' a) = Left (?h a) \<and> Right (?h' a) = Right (?h a)
          \<and> parent (?h' a) = (if Right (?h x) = Some a then Some y else parent (?h a))"
        using out[OF 1 2 3] .
    qed
    have sA: "shape ?h' (Left (?h x)) A" using shape_frame[of A ?h' ?h] frA shA by blast
    have sB: "shape ?h' (Right (?h x)) B" using shape_frame[of B ?h' ?h] frB shB by blast
    have sC: "shape ?h' (Right (?h y)) C" using shape_frame[of C ?h' ?h] frC shC by blast
    have pA: "parents_ok ?h' (Some x) A" using parents_ok_frame[of A ?h' ?h] frA poA by blast
    have pC: "parents_ok ?h' (Some y) C" using parents_ok_frame[of C ?h' ?h] frC poC by blast
    have pB: "parents_ok ?h' (Some y) B"
    proof (cases B)
      case Lf
      then show ?thesis by simp
    next
      case (Nd Bl b Br)
      have Rxb: "Right (?h x) = Some b" using shB Nd by simp
      have "\<forall>a \<in> set (addrs Bl). parent (?h' a) = parent (?h a)"
        using frB Nd Rxb dis(12) by auto
      then have 1: "parents_ok ?h' (Some b) Bl" using parents_ok_frame[of Bl ?h' ?h] poB Nd by auto
      have "\<forall>a \<in> set (addrs Br). parent (?h' a) = parent (?h a)"
        using frB Nd Rxb dis(12) by auto
      then have 2: "parents_ok ?h' (Some b) Br" using parents_ok_frame[of Br ?h' ?h] poB Nd by auto
      have "parent (?h' b) = Some y" using frB Nd Rxb by simp
      then show ?thesis using 1 2 Nd by simp
    qed
    have pxy: "parent (?h y) \<noteq> Some x" "parent (?h y) \<noteq> Some y"
      using inner[of x] inner[of y] subset by auto
    have xy: "Left (?h' x) = Left (?h x)" "Right (?h' x) = Some y" "parent (?h' x) = parent (?h y)"
      "Left (?h' y) = Right (?h x)" "Right (?h' y) = Right (?h y)" "parent (?h' y) = Some x"
      using dis(1) pxy by (simp_all add: F(1-3))
    have su: "shape ?h' (Some x) ?u" using sA sB sC xy by simp
    have pu: "parents_ok ?h' (parent (?h y)) ?u" using pA pB pC xy by simp
    have frame: "\<forall>b. b \<notin> set (addrs (subtree t y)) \<longrightarrow>
           parent (?h' b) = parent (?h b)
           \<and> Left (?h' b) = (if Left (?h b) = Some y \<and> parent (?h y) = Some b then Some x else Left (?h b))
           \<and> Right (?h' b) = (if Right (?h b) = Some y \<and> parent (?h y) = Some b then Some x else Right (?h b))"
    proof (intro allI impI)
      fix b assume b: "b \<notin> set (addrs (subtree t y))"
      then have bne: "b \<noteq> x" "b \<noteq> y" "Right (?h x) \<noteq> Some b" using subset RxB by auto
      have "parent (?h y) = Some b \<Longrightarrow> (Left (?h b) \<noteq> Some y) = (Right (?h b) = Some y)"
      proof -
        assume pb: "parent (?h y) = Some b"
        then have bt: "b \<in> set (addrs t)" and ch: "Left (?h b) = Some y \<or> Right (?h b) = Some y"
          using pc by auto
        show ?thesis using ch children_distinct[OF sh di bt] by auto
      qed
      then show "parent (?h' b) = parent (?h b)
           \<and> Left (?h' b) = (if Left (?h b) = Some y \<and> parent (?h y) = Some b then Some x else Left (?h b))
           \<and> Right (?h' b) = (if Right (?h b) = Some y \<and> parent (?h y) = Some b then Some x else Right (?h b))"
        using bne by (cases "parent (?h y) = Some b") (simp_all add: F(1-3))
    qed
    have rep: "shape ?h' (if Root s = Some y then Some x else Root s) (replace t y ?u)
         \<and> parents_ok ?h' None (replace t y ?u)"
      using replace_holds[OF sh po di assms(2) su pu frame] .
    have root: "Root ?s' = (if Root s = Some y then Some x else Root s)"
      using pc by (auto simp add: F(4))
    have ad: "addrs (replace t y ?u) = addrs t"
      using replace_addrs[OF assms(2) di, of ?u] sub L by simp
    show ?thesis using rep root ad di sub L by (simp add: holds_tree_def)
  qed
qed

lemma rotl_local:
  assumes "holds_tree s t" "x \<in> set (addrs t)" "Right (store s x) = Some y"
  shows "x \<noteq> y" "Left (store s y) \<noteq> Some x" "Left (store s y) \<noteq> Some y"
    "\<forall>p. parent (store s x) = Some p \<longrightarrow> p \<noteq> x \<and> p \<noteq> y \<and> Left (store s y) \<noteq> Some p"
    "parent (store s y) = Some x"
    "\<forall>b. Left (store s y) = Some b \<longrightarrow> parent (store s b) = Some y"
    "parent (store s x) = None \<longrightarrow> Root s = Some x"
    "\<forall>p. parent (store s x) = Some p \<longrightarrow>
        Left (store s p) \<noteq> Some y \<and> Right (store s p) \<noteq> Some y \<and>
        ((Left (store s p) = Some x \<and> Right (store s p) \<noteq> Some x)
         \<or> (Left (store s p) \<noteq> Some x \<and> Right (store s p) = Some x))"
proof -
  let ?h = "store s"
  from assms(1) have sh: "shape ?h (Root s) t" and po: "parents_ok ?h None t"
    and di: "distinct (addrs t)" by (simp_all add: holds_tree_def)
  have sx: "shape ?h (Some x) (subtree t x)" using sh assms(2) subtree_shape by blast
  then obtain A R where sub: "subtree t x = Nd A x R" using shape_Some by blast
  have px: "parents_ok ?h (parent (?h x)) (subtree t x)" using po assms(2) subtree_parents_ok by blast
  have dx: "distinct (addrs (subtree t x))" using di subtree_distinct by blast
  have "shape ?h (Some y) R" using sx sub assms(3) by simp
  then obtain B C where R: "R = Nd B y C" using shape_Some by blast
  have shB: "shape ?h (Left (?h y)) B" using sx sub R by auto
  have py: "parent (?h y) = Some x" and poB: "parents_ok ?h (Some y) B" using px sub R by auto
  have dis: "x \<noteq> y" "x \<notin> set (addrs B)" "y \<notin> set (addrs B)" using dx sub R by auto
  have yt: "y \<in> set (addrs t)" using subtree_addrs_subset[of t x] sub R by auto
  have subset: "x \<in> set (addrs (subtree t x))" "y \<in> set (addrs (subtree t x))"
    "\<forall>b \<in> set (addrs B). b \<in> set (addrs (subtree t x))" using sub R by auto
  have LyB: "\<And>a. Left (?h y) = Some a \<Longrightarrow> a \<in> set (addrs B)"
    using shape_ptr[OF shB] by auto
  have pc: "(Root s = Some x \<and> parent (?h x) = None)
       \<or> (Root s \<noteq> Some x \<and> (\<exists>q. parent (?h x) = Some q \<and> q \<in> set (addrs t)
            \<and> q \<notin> set (addrs (subtree t x))
            \<and> (Left (?h q) = Some x \<or> Right (?h q) = Some x)))"
    using parent_cases[OF sh po di assms(2)] by blast
  show "x \<noteq> y" by (rule dis(1))
  show "Left (?h y) \<noteq> Some x" using LyB dis(2) by blast
  show "Left (?h y) \<noteq> Some y" using LyB dis(3) by blast
  show "\<forall>p. parent (?h x) = Some p \<longrightarrow> p \<noteq> x \<and> p \<noteq> y \<and> Left (?h y) \<noteq> Some p"
    using pc subset LyB by auto
  show "parent (?h y) = Some x" by (rule py)
  show "\<forall>b. Left (?h y) = Some b \<longrightarrow> parent (?h b) = Some y"
  proof (intro allI impI)
    fix b assume b: "Left (?h y) = Some b"
    then obtain Bl Br where "B = Nd Bl b Br" using shB shape_Some by metis
    then show "parent (?h b) = Some y" using poB by simp
  qed
  show "parent (?h x) = None \<longrightarrow> Root s = Some x" using pc by auto
  show "\<forall>p. parent (?h x) = Some p \<longrightarrow>
        Left (?h p) \<noteq> Some y \<and> Right (?h p) \<noteq> Some y \<and>
        ((Left (?h p) = Some x \<and> Right (?h p) \<noteq> Some x)
         \<or> (Left (?h p) \<noteq> Some x \<and> Right (?h p) = Some x))"
  proof (intro allI impI)
    fix p assume p: "parent (?h x) = Some p"
    then have pt: "p \<in> set (addrs t)" and ch: "Left (?h p) = Some x \<or> Right (?h p) = Some x"
      and pn: "p \<noteq> x" using pc subset(1) by auto
    have cd: "\<And>c. Left (?h p) = Some c \<Longrightarrow> Right (?h p) \<noteq> Some c"
      using children_distinct[OF sh di pt] by blast
    have py': "\<And>q. Left (?h q) = Some y \<or> Right (?h q) = Some y \<Longrightarrow> q \<in> set (addrs t) \<Longrightarrow> q = x"
    proof -
      fix q assume q: "Left (?h q) = Some y \<or> Right (?h q) = Some y" and qt: "q \<in> set (addrs t)"
      have sq: "shape ?h (Some q) (subtree t q)" using sh qt subtree_shape by blast
      then obtain l r where lr: "subtree t q = Nd l q r" using shape_Some by blast
      have pq: "parents_ok ?h (parent (?h q)) (subtree t q)" using po qt subtree_parents_ok by blast
      from q show "q = x"
      proof
        assume "Left (?h q) = Some y"
        then have "shape ?h (Some y) l" using sq lr by simp
        then obtain l1 l2 where "l = Nd l1 y l2" using shape_Some by blast
        then have "parent (?h y) = Some q" using pq lr by simp
        then show ?thesis using py by simp
      next
        assume "Right (?h q) = Some y"
        then have "shape ?h (Some y) r" using sq lr by simp
        then obtain l1 l2 where "r = Nd l1 y l2" using shape_Some by blast
        then have "parent (?h y) = Some q" using pq lr by simp
        then show ?thesis using py by simp
      qed
    qed
    have "Left (?h p) \<noteq> Some y" "Right (?h p) \<noteq> Some y" using py'[OF _ pt] pn by blast+
    then show "Left (?h p) \<noteq> Some y \<and> Right (?h p) \<noteq> Some y \<and>
        ((Left (?h p) = Some x \<and> Right (?h p) \<noteq> Some x)
         \<or> (Left (?h p) \<noteq> Some x \<and> Right (?h p) = Some x))" using ch cd by blast
  qed
qed

lemma RotateLeft_RotateRight_inverse:
  assumes "holds_tree s t" "x \<in> set (addrs t)" "Right (store s x) = Some y"
  shows "RotateRight (Some y) (RotateLeft (Some x) s) = s"
proof -
  let ?h = "store s"
  let ?s' = "RotateLeft (Some x) s"
  let ?h' = "store ?s'"
  let ?s'' = "RotateRight (Some y) ?s'"
  note loc = rotl_local[OF assms]
  note F = RotateLeft_fields[OF assms(3) loc(1-4)]
  have pxx: "parent (?h x) \<noteq> Some x" "parent (?h x) \<noteq> Some y" using loc(4) by auto
  have xy: "Left (?h' y) = Some x" "Right (?h' x) = Left (?h y)" "parent (?h' y) = parent (?h x)"
    using loc(1) pxx by (simp_all add: F(1-3))
  have loc': "Right (?h' x) \<noteq> Some x" "Right (?h' x) \<noteq> Some y"
    "\<forall>p. parent (?h' y) = Some p \<longrightarrow> p \<noteq> x \<and> p \<noteq> y \<and> Right (?h' x) \<noteq> Some p"
    using loc(2-4) xy by simp_all
  note G = RotateRight_fields[OF xy(1) loc(1) loc']
  have L: "\<And>a. Left (store ?s'' a) = Left (?h a)"
  proof -
    fix a
    show "Left (store ?s'' a) = Left (?h a)"
    proof (cases "a = y")
      case True
      then show ?thesis by (simp add: G(1) xy)
    next
      case False
      note ay = False
      show ?thesis
      proof (cases "parent (?h x) = Some a")
        case True
        then show ?thesis using ay loc(8) by (auto simp add: G(1) xy F(1))
      next
        case False
        then show ?thesis using ay by (simp add: G(1) xy F(1))
      qed
    qed
  qed
  have R: "\<And>a. Right (store ?s'' a) = Right (?h a)"
  proof -
    fix a
    show "Right (store ?s'' a) = Right (?h a)"
    proof (cases "a = x")
      case True
      then show ?thesis using assms(3) by (simp add: G(2) xy)
    next
      case False
      note ax = False
      show ?thesis
      proof (cases "parent (?h x) = Some a")
        case True
        then show ?thesis using ax loc(8) loc(4) by (auto simp add: G(2) xy F(1) F(2))
      next
        case False
        then show ?thesis using ax by (simp add: G(2) xy F(2))
      qed
    qed
  qed
  have P: "\<And>a. parent (store ?s'' a) = parent (?h a)"
  proof -
    fix a
    show "parent (store ?s'' a) = parent (?h a)"
      using loc(1,5,6) by (cases "a = x"; cases "a = y"; cases "Left (?h y) = Some a")
        (simp_all add: G(3) xy F(3))
  qed
  have st: "store ?s'' = ?h"
  proof
    fix a
    show "store ?s'' a = ?h a"
      by (rule Node.equality) (simp_all add: L R P)
  qed
  have rt: "Root ?s'' = Root s"
    using loc(7) by (cases "parent (?h x)") (simp_all add: G(4) xy F(4))
  show ?thesis
    by (rule Tree.equality) (simp_all add: st rt)
qed

section \<open>The range query on a tree in the store\<close>

lemma isLeaf_shape:
  "shape h (Some a) (Nd l a r) \<Longrightarrow> (Right (h a) = None \<and> Left (h a) = None) = (l = Lf \<and> r = Lf)"
  by (cases l; cases r) auto

lemma intKey_IntKey [simp]: "intKey (IntKey i) = Inr i"
  by (simp add: intKey_def)

lemma goingLeft_left_walk:
  assumes "shape (store s) p t" "\<forall>a \<in> set (addrs t). Key (store s a) = IntKey (kf a)"
  shows "goingLeft p x1 ns s =
           Some (case left_walk kf x1 t of
                   None \<Rightarrow> Inl NilDereference
                 | Some (cs, e) \<Rightarrow> Inr (Some e, ns @ map (store s) cs))"
  using assms
proof (induction t arbitrary: p ns)
  case Lf
  then show ?case by (subst goingLeft.simps) (simp add: isLeaf_def)
next
  case (Nd l a r)
  have p: "p = Some a" and sl: "shape (store s) (Left (store s a)) l"
    and sr: "shape (store s) (Right (store s a)) r" using Nd.prems(1) by auto
  have ka: "Key (store s a) = IntKey (kf a)" using Nd.prems(2) by simp
  have kl: "\<forall>a \<in> set (addrs l). Key (store s a) = IntKey (kf a)" using Nd.prems(2) by simp
  have kr: "\<forall>a \<in> set (addrs r). Key (store s a) = IntKey (kf a)" using Nd.prems(2) by simp
  have lf: "(Right (store s a) = None \<and> Left (store s a) = None) = (l = Lf \<and> r = Lf)"
    using isLeaf_shape Nd.prems(1) p by blast
  show ?case
  proof (cases "l = Lf \<and> r = Lf")
    case True
    then have "isLeaf (Some a) s = Inr True" using lf by (simp add: isLeaf_def)
    then show ?thesis using p True by (subst goingLeft.simps) simp
  next
    case False
    note nl = False
    have nlf: "isLeaf (Some a) s = Inr False" using lf nl by (simp add: isLeaf_def)
    show ?thesis
    proof (cases "x1 \<le> kf a")
      case True
      show ?thesis
      proof (cases r)
        case Lf
        then have "Right (store s a) = None" using sr by simp
        then show ?thesis using p nl nlf ka True Lf
          by (subst goingLeft.simps) simp
      next
        case (Nd rl b rr)
        then have rb: "Right (store s a) = Some b" using sr by simp
        have "goingLeft p x1 ns s = goingLeft (Left (store s a)) x1 (ns @ [store s b]) s"
          using p nlf ka True rb by (subst goingLeft.simps) simp
        also have "\<dots> = Some (case left_walk kf x1 l of
                   None \<Rightarrow> Inl NilDereference
                 | Some (cs, e) \<Rightarrow> Inr (Some e, (ns @ [store s b]) @ map (store s) cs))"
          using Nd.IH(1)[OF sl kl] by simp
        finally show ?thesis using nl True Nd by (simp split: option.split)
      qed
    next
      case False
      have "goingLeft p x1 ns s = goingLeft (Right (store s a)) x1 ns s"
        using p nlf ka False by (subst goingLeft.simps) simp
      then show ?thesis using Nd.IH(2)[OF sr kr] nl False by simp
    qed
  qed
qed


lemma goingRight_right_walk:
  assumes "shape (store s) p t" "\<forall>a \<in> set (addrs t). Key (store s a) = IntKey (kf a)"
  shows "goingRight p x2 ns s =
           Some (case right_walk kf x2 t of
                   None \<Rightarrow> Inl NilDereference
                 | Some (cs, e) \<Rightarrow> Inr (Some e, ns @ map (store s) cs))"
  using assms
proof (induction t arbitrary: p ns)
  case Lf
  then show ?case by (subst goingRight.simps) (simp add: isLeaf_def)
next
  case (Nd l a r)
  have p: "p = Some a" and sl: "shape (store s) (Left (store s a)) l"
    and sr: "shape (store s) (Right (store s a)) r" using Nd.prems(1) by auto
  have ka: "Key (store s a) = IntKey (kf a)" using Nd.prems(2) by simp
  have kl: "\<forall>a \<in> set (addrs l). Key (store s a) = IntKey (kf a)" using Nd.prems(2) by simp
  have kr: "\<forall>a \<in> set (addrs r). Key (store s a) = IntKey (kf a)" using Nd.prems(2) by simp
  have lf: "(Right (store s a) = None \<and> Left (store s a) = None) = (l = Lf \<and> r = Lf)"
    using isLeaf_shape Nd.prems(1) p by blast
  show ?case
  proof (cases "l = Lf \<and> r = Lf")
    case True
    then have "isLeaf (Some a) s = Inr True" using lf by (simp add: isLeaf_def)
    then show ?thesis using p True by (subst goingRight.simps) simp
  next
    case False
    note nl = False
    have nlf: "isLeaf (Some a) s = Inr False" using lf nl by (simp add: isLeaf_def)
    show ?thesis
    proof (cases "kf a \<le> x2")
      case True
      show ?thesis
      proof (cases l)
        case Lf
        then have "Left (store s a) = None" using sl by simp
        then show ?thesis using p nl nlf ka True Lf
          by (subst goingRight.simps) simp
      next
        case (Nd ll b lr)
        then have lb: "Left (store s a) = Some b" using sl by simp
        have "goingRight p x2 ns s = goingRight (Right (store s a)) x2 (ns @ [store s b]) s"
          using p nlf ka True lb by (subst goingRight.simps) simp
        also have "\<dots> = Some (case right_walk kf x2 r of
                   None \<Rightarrow> Inl NilDereference
                 | Some (cs, e) \<Rightarrow> Inr (Some e, (ns @ [store s b]) @ map (store s) cs))"
          using Nd.IH(2)[OF sr kr] by simp
        finally show ?thesis using nl True Nd by (simp split: option.split)
      qed
    next
      case False
      have "goingRight p x2 ns s = goingRight (Left (store s a)) x2 ns s"
        using p nlf ka False by (subst goingRight.simps) simp
      then show ?thesis using Nd.IH(1)[OF sl kl] nl False by simp
    qed
  qed
qed

lemma shape_root_ptr: "shape h p t \<Longrightarrow> p = root_ptr t"
  by (cases t) auto

lemma splitNode_addrs: "set (addrs (splitNode kf x1 x2 t)) \<subseteq> set (addrs t)"
  by (induction t) auto

lemma getSplitNode_splitNode:
  assumes "shape (store s) (Some a) t" "\<forall>a \<in> set (addrs t). Key (store s a) = IntKey (kf a)"
  shows "getSplitNode (Some a) x1 x2 s = Some (Inr (root_ptr (splitNode kf x1 x2 t)))
         \<and> shape (store s) (root_ptr (splitNode kf x1 x2 t)) (splitNode kf x1 x2 t)"
  using assms
proof (induction t arbitrary: a)
  case Lf
  then show ?case by simp
next
  case (Nd l b r)
  have ab: "a = b" and sl: "shape (store s) (Left (store s a)) l"
    and sr: "shape (store s) (Right (store s a)) r" using Nd.prems(1) by auto
  have ka: "Key (store s a) = IntKey (kf a)" using Nd.prems(2) ab by simp
  have kl: "\<forall>a \<in> set (addrs l). Key (store s a) = IntKey (kf a)" using Nd.prems(2) by simp
  have kr: "\<forall>a \<in> set (addrs r). Key (store s a) = IntKey (kf a)" using Nd.prems(2) by simp
  show ?case
  proof (cases "x1 \<le> kf b \<and> kf b \<le> x2")
    case True
    then have sn: "splitNode kf x1 x2 (Nd l b r) = Nd l b r" by simp
    have "getSplitNode (Some a) x1 x2 s = Some (Inr (Some a))"
      using ka ab True by (subst getSplitNode.simps) simp
    then show ?thesis using sn ab Nd.prems(1) by simp
  next
    case False
    then have out: "\<not> (x1 \<le> kf a \<and> kf a \<le> x2)" using ab by simp
    show ?thesis
    proof (cases "l = Lf")
      case False
      then have sn: "splitNode kf x1 x2 (Nd l b r) = splitNode kf x1 x2 l"
        using \<open>\<not> (x1 \<le> kf b \<and> kf b \<le> x2)\<close> by auto
      obtain c where lc: "Left (store s a) = Some c" using sl False by (cases l) auto
      have "getSplitNode (Some a) x1 x2 s = getSplitNode (Some c) x1 x2 s"
        using ka out lc by (subst getSplitNode.simps) auto
      moreover have "getSplitNode (Some c) x1 x2 s = Some (Inr (root_ptr (splitNode kf x1 x2 l)))
         \<and> shape (store s) (root_ptr (splitNode kf x1 x2 l)) (splitNode kf x1 x2 l)"
        using Nd.IH(1)[of c] sl kl lc by simp
      ultimately show ?thesis using sn by simp
    next
      case True
      then have ln: "Left (store s a) = None" using sl by simp
      have sn: "splitNode kf x1 x2 (Nd l b r) = splitNode kf x1 x2 r"
        using \<open>\<not> (x1 \<le> kf b \<and> kf b \<le> x2)\<close> True by auto
      show ?thesis
      proof (cases "r = Lf")
        case False
        obtain c where rc: "Right (store s a) = Some c" using sr False by (cases r) auto
        have "getSplitNode (Some a) x1 x2 s = getSplitNode (Some c) x1 x2 s"
          using ka out ln rc by (subst getSplitNode.simps) auto
        moreover have "getSplitNode (Some c) x1 x2 s = Some (Inr (root_ptr (splitNode kf x1 x2 r)))
           \<and> shape (store s) (root_ptr (splitNode kf x1 x2 r)) (splitNode kf x1 x2 r)"
          using Nd.IH(2)[of c] sr kr rc by simp
        ultimately show ?thesis using sn by simp
      next
        case True
        then have rn: "Right (store s a) = None" using sr by simp
        have "getSplitNode (Some a) x1 x2 s = Some (Inr None)"
          using ka out ln rn by (subst getSplitNode.simps) auto
        then show ?thesis using sn True by simp
      qed
    qed
  qed
qed

lemma appendIfInRange_eq:
  "Key (store s e) = IntKey (kf e) \<Longrightarrow>
   appendIfInRange (Some e) x1 x2 ns s = Inr (ns @ map (store s) (if_in_range kf x1 x2 e))"
  by (simp add: appendIfInRange_def if_in_range_def)

lemma keysOf_eq:
  "\<forall>a \<in> set cs. Key (store s a) = IntKey (kf a) \<Longrightarrow>
   keysOf (map (store s) cs) ks = Inr (ks @ map kf cs)"
  by (induction cs arbitrary: ks) auto

lemma left_walk_addrs:
  "left_walk kf x1 t = Some (cs, e) \<Longrightarrow> set cs \<subseteq> set (addrs t) \<and> e \<in> set (addrs t)"
proof (induction t arbitrary: cs e)
  case Lf
  then show ?case by simp
next
  case (Nd l a r)
  then show ?case
    by (cases r) (fastforce split: if_splits)+
qed

lemma right_walk_addrs:
  "right_walk kf x2 t = Some (cs, e) \<Longrightarrow> set cs \<subseteq> set (addrs t) \<and> e \<in> set (addrs t)"
proof (induction t arbitrary: cs e)
  case Lf
  then show ?case by simp
next
  case (Nd l a r)
  then show ?case
    by (cases l) (fastforce split: if_splits)+
qed


lemma getValuesInRange_range_result:
  assumes "shape (store s) (Root s) t" "\<forall>a \<in> set (addrs t). Key (store s a) = IntKey (kf a)"
  shows "getValuesInRange x1 x2 s = Some (range_result kf x1 x2 t)"
proof (cases t)
  case Lf
  then have "Root s = None" using assms(1) by simp
  then show ?thesis using Lf
    by (simp add: getValuesInRange_def getSplitNode.simps range_result_def)
next
  case (Nd l0 a0 r0)
  then have rt: "Root s = Some a0" using assms(1) by simp
  let ?v = "splitNode kf x1 x2 t"
  have gs: "getSplitNode (Some a0) x1 x2 s = Some (Inr (root_ptr ?v))"
    and sv: "shape (store s) (root_ptr ?v) ?v"
    using getSplitNode_splitNode[of s a0 t kf x1 x2] assms rt by simp_all
  have kv: "\<forall>a \<in> set (addrs ?v). Key (store s a) = IntKey (kf a)"
    using assms(2) splitNode_addrs[of kf x1 x2 t] by blast
  show ?thesis
  proof (cases ?v)
    case Lf
    then show ?thesis using gs rt Nd by (simp add: getValuesInRange_def range_result_def)
  next
    case (Nd l v r)
    note V = Nd
    have svl: "shape (store s) (Left (store s v)) l" and svr: "shape (store s) (Right (store s v)) r"
      using sv V by simp_all
    have kl: "\<forall>a \<in> set (addrs l). Key (store s a) = IntKey (kf a)"
      and kr: "\<forall>a \<in> set (addrs r). Key (store s a) = IntKey (kf a)"
      and kvv: "Key (store s v) = IntKey (kf v)" using kv V by simp_all
    have lf: "isLeaf (Some v) s = Inr (l = Lf \<and> r = Lf)"
      using isLeaf_shape[of "store s" v l r] sv V by (simp add: isLeaf_def)
    have gs': "getSplitNode (Root s) x1 x2 s = Some (Inr (Some v))" using gs rt V by simp
    show ?thesis
    proof (cases "l = Lf \<and> r = Lf")
      case True
      then have rn: "Right (store s v) = None" using svr by simp
      have gl: "goingLeft (Some v) x1 ns s = Some (Inr (Some v, ns))" for ns
        using lf True by (subst goingLeft.simps) simp
      have gr: "goingRight None x2 ns s = Some (Inl NilDereference)" for ns
        by (subst goingRight.simps) (simp add: isLeaf_def)
      have "getValuesInRange x1 x2 s = Some (Inl NilDereference)"
        using gs' lf True rn gl gr appendIfInRange_eq[where kf=kf, OF kvv]
        by (simp add: getValuesInRange_def)
      then show ?thesis using True V \<open>t = Nd l0 a0 r0\<close> by (simp add: range_result_def)
    next
      case False
      note nl = False
      have gl: "goingLeft (Left (store s v)) x1 [] s =
           Some (case left_walk kf x1 l of
                   None \<Rightarrow> Inl NilDereference
                 | Some (cs, e) \<Rightarrow> Inr (Some e, [] @ map (store s) cs))"
        using goingLeft_left_walk[OF svl kl] .
      show ?thesis
      proof (cases "left_walk kf x1 l")
        case None
        then have "getValuesInRange x1 x2 s = Some (Inl NilDereference)"
          using gs' lf nl gl by (simp add: getValuesInRange_def)
        then show ?thesis using nl V None \<open>t = Nd l0 a0 r0\<close> by (simp add: range_result_def)
      next
        case (Some ce)
        obtain cs e where ce: "ce = (cs, e)" by (cases ce)
        have lw: "left_walk kf x1 l = Some (cs, e)" using Some ce by simp
        have el: "set cs \<subseteq> set (addrs l)" "e \<in> set (addrs l)"
          using left_walk_addrs[OF lw] by simp_all
        have ke: "Key (store s e) = IntKey (kf e)" using kl el(2) by blast
        have kcs: "\<forall>a \<in> set cs. Key (store s a) = IntKey (kf a)" using kl el(1) by blast
        let ?ns2 = "map (store s) (cs @ if_in_range kf x1 x2 e)"
        have gr: "goingRight (Right (store s v)) x2 ?ns2 s =
           Some (case right_walk kf x2 r of
                   None \<Rightarrow> Inl NilDereference
                 | Some (ds, f) \<Rightarrow> Inr (Some f, ?ns2 @ map (store s) ds))"
          using goingRight_right_walk[OF svr kr] .
        show ?thesis
        proof (cases "right_walk kf x2 r")
          case None
          then have "getValuesInRange x1 x2 s = Some (Inl NilDereference)"
            using gs' lf nl gl lw gr appendIfInRange_eq[where kf=kf, OF ke]
            by (simp add: getValuesInRange_def)
          then show ?thesis using nl V lw None \<open>t = Nd l0 a0 r0\<close>
            by (simp add: range_result_def)
        next
          case (Some df)
          obtain ds f where df: "df = (ds, f)" by (cases df)
          have rw: "right_walk kf x2 r = Some (ds, f)" using Some df by simp
          have fr: "set ds \<subseteq> set (addrs r)" "f \<in> set (addrs r)"
            using right_walk_addrs[OF rw] by simp_all
          have kf': "Key (store s f) = IntKey (kf f)" using kr fr(2) by blast
          have kds: "\<forall>a \<in> set ds. Key (store s a) = IntKey (kf a)" using kr fr(1) by blast
          let ?all = "cs @ if_in_range kf x1 x2 e @ ds @ if_in_range kf x1 x2 f"
          have kall: "\<forall>a \<in> set ?all. Key (store s a) = IntKey (kf a)"
            using kcs kds ke kf' by (auto simp add: if_in_range_def)
          have "getValuesInRange x1 x2 s = Some (keysOf (map (store s) ?all) [])"
            using gs' lf nl gl lw gr rw appendIfInRange_eq[where kf=kf, OF ke] appendIfInRange_eq[where kf=kf, OF kf']
            by (simp add: getValuesInRange_def)
          then have "getValuesInRange x1 x2 s = Some (Inr (map kf ?all))"
            using keysOf_eq[where kf=kf and ks="[]", OF kall] by simp
          then show ?thesis using nl V lw rw \<open>t = Nd l0 a0 r0\<close>
            by (simp add: range_result_def)
        qed
      qed
    qed
  qed
qed

section \<open>Key validation\<close>

lemma mustBeValidKey_cases:
  "mustBeValidKey k =
     (if k = NilKey then Some ErrorKeyIsNil
      else if Kind_of k \<in> {KChan, KFunc, KInterface, KMap, KPtr, KSlice}
      then Some ErrorKeyDisallowed else None)"
  by (cases k; cases "Kind_of k"; simp add: mustBeValidKey_def)

text \<open>
  C6, as the claim states it, fails for arrays: \<^verbatim>\<open>reflect.Array\<close> is not among the kinds of
  the switch in \<^verbatim>\<open>mustBeValidKey\<close>, so an array key passes validation.
\<close>

theorem mustBeValidKey_array_accepted:
  "mustBeValidKey (OtherKey KArray) = None
   \<and> mustBeValidKey (OtherKey KArray) \<noteq> Some ErrorKeyDisallowed"
  by (simp add: mustBeValidKey_def)

text \<open>
  C6, amended: validation fails with \<^verbatim>\<open>ErrorKeyIsNil\<close> exactly for the nil key, and with
  \<^verbatim>\<open>ErrorKeyDisallowed\<close> exactly for a non-nil key whose kind is Chan, Func, Interface, Map,
  Ptr or Slice; every other key, an array among them, is accepted. When validation fails,
  Put, Get, Has and GetParent return at once, whatever the tree and the store hold: Put
  returns the error and the tree as it was, the others report "not found".
\<close>

theorem mustBeValidKey_amended:
  "(mustBeValidKey k = Some ErrorKeyIsNil \<longleftrightarrow> k = NilKey)
   \<and> (mustBeValidKey k = Some ErrorKeyDisallowed \<longleftrightarrow>
        k \<noteq> NilKey \<and> Kind_of k \<in> {KChan, KFunc, KInterface, KMap, KPtr, KSlice})
   \<and> (mustBeValidKey k = None \<longleftrightarrow>
        k \<noteq> NilKey \<and> Kind_of k \<notin> {KChan, KFunc, KInterface, KMap, KPtr, KSlice})
   \<and> (\<forall>err. mustBeValidKey k = Some err \<longrightarrow>
        Put k data t = Some (Inr (Some err, t))
        \<and> Get k t = Some (Inr (False, None))
        \<and> Has k t = Some (Inr False)
        \<and> GetParent k t = Some (Inr (False, None, NODIR)))"
  by (simp add: mustBeValidKey_cases Put_def Get_def Has_def GetParent_def)

theorem mustBeValidKey_amended_witness:
  "mustBeValidKey (OtherKey KSlice) = Some ErrorKeyDisallowed
   \<and> mustBeValidKey NilKey = Some ErrorKeyIsNil
   \<and> mustBeValidKey (OtherKey KArray) = None
   \<and> Put (OtherKey KSlice) (Some (7::nat)) NewTree = Some (Inr (Some ErrorKeyDisallowed, NewTree))
   \<and> Get (OtherKey KSlice) (NewTree :: nat Tree) = Some (Inr (False, None))
   \<and> Has (OtherKey KSlice) (NewTree :: nat Tree) = Some (Inr False)
   \<and> GetParent (OtherKey KSlice) (NewTree :: nat Tree) = Some (Inr (False, None, NODIR))"
  using mustBeValidKey_amended [of "OtherKey KSlice" "Some (7::nat)" NewTree]
    mustBeValidKey_amended [of NilKey "Some (7::nat)" NewTree]
    mustBeValidKey_amended [of "OtherKey KArray" "Some (7::nat)" NewTree]
  by simp

text \<open>
  C9: Put with an invalid key (nil, or of a disallowed kind) returns the corresponding error
  and leaves the tree and the store exactly as they were; nothing of the tree is read, so
  this holds for every tree value.
\<close>

theorem Put_invalid_key_noop:
  assumes "k = NilKey \<or> Kind_of k \<in> {KChan, KFunc, KInterface, KMap, KPtr, KSlice}"
  shows "Put k data t =
           Some (Inr (Some (if k = NilKey then ErrorKeyIsNil else ErrorKeyDisallowed), t))"
  using assms by (auto simp add: mustBeValidKey_cases Put_def)

theorem Put_invalid_key_noop_witness:
  "Put NilKey (Some (1::nat)) NewTree = Some (Inr (Some ErrorKeyIsNil, NewTree))
   \<and> Put (OtherKey KMap) (Some (1::nat)) NewTree = Some (Inr (Some ErrorKeyDisallowed, NewTree))"
  using Put_invalid_key_noop [of NilKey "Some (1::nat)" NewTree]
    Put_invalid_key_noop [of "OtherKey KMap" "Some (1::nat)" NewTree]
  by simp

section \<open>The delete fix-up at a null position\<close>

text \<open>
  C2: \<^verbatim>\<open>fixupDelete\<close> starts with \<^verbatim>\<open>if x == nil { return }\<close>. Called with a null \<open>x\<close> it
  returns with the tree untouched: the deficiency at the empty position is not tracked and
  nothing is restored.
\<close>

theorem fixupDelete_nil_does_nothing: "fixupDelete None t = Some (Inr t)"
  by (simp add: fixupDelete_def)

text \<open>
  C1: after \<^verbatim>\<open>Put\<close> of 1, 2, 3, 4 and \<^verbatim>\<open>Delete(1)\<close> on an empty tree, the tree is the Black
  root 2 with no left child and the Black right child 3, which has the Red right child 4.
  The root is Black, no Red node has a Red child and the keys are sorted, but the path to
  the root's left null position has one Black node and the others have two.
\<close>

theorem Delete_breaks_black_count:
  "(case run [PutCall (IntKey 1) None, PutCall (IntKey 2) None, PutCall (IntKey 3) None,
              PutCall (IntKey 4) None, DeleteCall (IntKey 1)] (NewTree :: unit Tree) of
      Some (Inr s) \<Rightarrow>
        shape (store s) (Root s) (Nd Lf 1 (Nd Lf 2 (Nd Lf 3 Lf)))
        \<and> keys_of (store s) (Nd Lf 1 (Nd Lf 2 (Nd Lf 3 Lf))) = [IntKey 2, IntKey 3, IntKey 4]
        \<and> map (\<lambda>a. color (store s a)) [1, 2, 3] = [BLACK, BLACK, RED]
        \<and> black_counts (store s) (Nd Lf 1 (Nd Lf 2 (Nd Lf 3 Lf))) = [1, 2, 2, 2]
        \<and> \<not> equal_black_counts (store s) (Nd Lf 1 (Nd Lf 2 (Nd Lf 3 Lf)))
        \<and> \<not> red_black s (Nd Lf 1 (Nd Lf 2 (Nd Lf 3 Lf)))
    | _ \<Rightarrow> False)"
  by code_simp

section \<open>Range query on the empty tree\<close>

text \<open>
  C3: on an empty tree \<^verbatim>\<open>getValuesInRange\<close> calls \<^verbatim>\<open>getSplitNode(t.Root, ...)\<close> with a nil
  root, and \<^verbatim>\<open>n.Key\<close> panics before anything is returned.
\<close>

theorem getValuesInRange_empty_tree_panics:
  "getValuesInRange x1 x2 NewTree = Some (Inl NilDereference)"
  by (simp add: getValuesInRange_def getSplitNode.simps NewTree_def)

section \<open>Rotating left and then right\<close>

text \<open>
  C10: in a well-formed tree (the child pointers from the root form a tree of distinct
  nodes and every parent pointer points back), for a node \<open>x\<close> with the right child \<open>y\<close>,
  \<^verbatim>\<open>RotateLeft(x)\<close> followed by \<^verbatim>\<open>RotateRight(y)\<close> gives back exactly the state before:
  the same root, the same store, hence the same child and parent links. After
  \<^verbatim>\<open>RotateLeft(x)\<close> the store holds the rotated tree, with the same nodes in the same
  inorder sequence, and nothing has been allocated.
\<close>

theorem RotateLeft_RotateRight_roundtrip:
  assumes "holds_tree s t" "x \<in> set (addrs t)" "Right (store s x) = Some y"
  shows "RotateRight (Some y) (RotateLeft (Some x) s) = s
         \<and> holds_tree (RotateLeft (Some x) s) (replace t x (rotl (subtree t x)))
         \<and> addrs (replace t x (rotl (subtree t x))) = addrs t
         \<and> fresh (RotateLeft (Some x) s) = fresh s"
  using RotateLeft_RotateRight_inverse[OF assms] RotateLeft_holds[OF assms(1,2)] by simp

theorem RotateLeft_RotateRight_roundtrip_witness:
  "holds_tree twoNodes (Nd Lf 0 (Nd Lf 1 Lf))
   \<and> Right (store twoNodes 0) = Some 1
   \<and> RotateRight (Some 1) (RotateLeft (Some 0) twoNodes) = twoNodes
   \<and> holds_tree (RotateLeft (Some 0) twoNodes) (Nd (Nd Lf 0 Lf) 1 Lf)"
proof -
  have h: "holds_tree twoNodes (Nd Lf 0 (Nd Lf 1 Lf))"
    by (simp add: holds_tree_def twoNodes_def zeroNode_def)
  have m: "(0::nat) \<in> set (addrs (Nd Lf 0 (Nd Lf 1 Lf)))" by simp
  have r: "Right (store twoNodes 0) = Some 1" by (simp add: twoNodes_def)
  show ?thesis
    using h r RotateLeft_RotateRight_roundtrip[OF h m r] by simp
qed

section \<open>The range query: left path and result\<close>

text \<open>
  C4, as the claim states it, fails on the tree of \<^verbatim>\<open>main\<close> for the interval [19, 77]:
  the left path, started at the left child 23 of the split node 49, yields the keys
  37, 23, 19: at node 23 only the right child 37 is collected, not the keys 30, 30, 37,
  37, 49 of the whole right subtree.
\<close>

theorem left_path_collects_child_only:
  "(case goingLeft (Left (store mainTree 24)) 19 [] mainTree of
      Some (Inr (cur, ns)) \<Rightarrow>
        (case appendIfInRange cur 19 77 ns mainTree of
           Inr ns1 \<Rightarrow> keysOf ns1 [] = Inr [37, 23, 19]
         | Inl e \<Rightarrow> False)
    | _ \<Rightarrow> False)
   \<and> shape (store mainTree) (Left (store mainTree 24)) mainLeftShape
   \<and> claimed_left_walk mainKey (\<lambda>a. Leaf (store mainTree a)) 19 77 mainLeftShape
       = Some [30, 30, 37, 37, 49, 23, 19]"
  by code_simp

text \<open>
  C4, amended: on a tree of integer keys the left path, from a node \<open>p\<close> onwards, does this
  at every node that has a child (the test is on the child pointers; the \<open>Leaf\<close> flag is not
  read): if \<open>lo \<le> key\<close> it appends a copy of the right child node alone and goes to the left
  child, otherwise it goes to the right child. When it reaches a node without children it
  stops, and that node is appended exactly when its key lies in \<open>[lo, hi]\<close>. (The walk is
  \<open>left_walk\<close>; where it would step to or collect a missing child the code panics.)
\<close>

theorem left_path_amended:
  assumes "shape (store s) p t" "\<forall>a \<in> set (addrs t). Key (store s a) = IntKey (kf a)"
  shows "goingLeft p x1 ns s =
           Some (case left_walk kf x1 t of
                   None \<Rightarrow> Inl NilDereference
                 | Some (cs, e) \<Rightarrow> Inr (Some e, ns @ map (store s) cs))
         \<and> (\<forall>cs e. left_walk kf x1 t = Some (cs, e) \<longrightarrow>
               appendIfInRange (Some e) x1 x2 (ns @ map (store s) cs) s =
                 Inr (ns @ map (store s) cs
                      @ (if x1 \<le> kf e \<and> kf e \<le> x2 then [store s e] else [])))"
proof -
  have "appendIfInRange (Some e) x1 x2 ns' s =
          Inr (ns' @ (if x1 \<le> kf e \<and> kf e \<le> x2 then [store s e] else []))"
    if "left_walk kf x1 t = Some (cs, e)" for cs e ns'
  proof -
    have "e \<in> set (addrs t)" using left_walk_addrs[OF that] by simp
    then have "Key (store s e) = IntKey (kf e)" using assms(2) by blast
    then show ?thesis by (simp add: appendIfInRange_def)
  qed
  then show ?thesis using goingLeft_left_walk[OF assms] by simp
qed

theorem left_path_amended_witness:
  "shape (store mainTree) (Some 22) mainLeftShape
   \<and> left_walk mainKey 19 mainLeftShape = Some ([19, 3], 2)
   \<and> goingLeft (Some 22) 19 [] mainTree
       = Some (Inr (Some 2, [store mainTree 19, store mainTree 3]))
   \<and> appendIfInRange (Some 2) 19 77 [store mainTree 19, store mainTree 3] mainTree
       = Inr [store mainTree 19, store mainTree 3, store mainTree 2]"
proof -
  have h1: "shape (store mainTree) (Some 22) mainLeftShape" by code_simp
  have h2: "\<forall>a \<in> set (addrs mainLeftShape). Key (store mainTree a) = IntKey (mainKey a)"
    by code_simp
  have w: "left_walk mainKey 19 mainLeftShape = Some ([19, 3], 2)" by code_simp
  have k: "19 \<le> mainKey 2 \<and> mainKey 2 \<le> 77" by code_simp
  show ?thesis
    using left_path_amended[OF h1 h2, of 19 "[]" 77] h1 w k by simp
qed

text \<open>
  C5, as the claim states it, fails on the tree of \<^verbatim>\<open>main\<close>: the query [19, 77] returns
  37, 23, 19, 59, 70, which is not sorted.
\<close>

theorem getValuesInRange_not_sorted:
  "getValuesInRange 19 77 mainTree = Some (Inr [37, 23, 19, 59, 70])
   \<and> \<not> sorted [37, 23, 19, 59, 70 :: int]"
  by code_simp

text \<open>
  C5, amended: for every tree of integer keys the range query returns the keys of the
  collected nodes in the order of their collection, which need not be sorted: first the
  right children collected on the left path from the split node's left child, top down,
  then the node that path ends at if its key is in the interval, then the left children
  collected on the right path from the split node's right child, top down, then the node
  that path ends at if its key is in the interval; the empty list when no node of the
  descent has its key in the interval. (The result is \<open>range_result\<close>, which also says
  where the code panics.)
\<close>

theorem getValuesInRange_amended:
  assumes "shape (store s) (Root s) t" "\<forall>a \<in> set (addrs t). Key (store s a) = IntKey (kf a)"
  shows "getValuesInRange x1 x2 s = Some (range_result kf x1 x2 t)"
  using getValuesInRange_range_result[OF assms] .

theorem getValuesInRange_amended_witness:
  "shape (store mainTree) (Root mainTree) mainShape
   \<and> range_result mainKey 19 77 mainShape = Inr [37, 23, 19, 59, 70]
   \<and> getValuesInRange 19 77 mainTree = Some (Inr [37, 23, 19, 59, 70])"
proof -
  have h1: "shape (store mainTree) (Root mainTree) mainShape" by code_simp
  have h2: "\<forall>a \<in> set (addrs mainShape). Key (store mainTree a) = IntKey (mainKey a)"
    by code_simp
  have r: "range_result mainKey 19 77 mainShape = Inr [37, 23, 19, 59, 70]" by code_simp
  show ?thesis
    using getValuesInRange_amended[OF h1 h2, of 19 77] h1 r by simp
qed

end
